theory Spec2Isabelle
  imports Complex_Main "HOL-Library.Word"
begin

section \<open>Errors\<close>

text \<open>
  The two values \<open>ctx.Err()\<close> can have once \<open>ctx.Done()\<close> is closed
  (\<open>context.Canceled\<close>, \<open>context.DeadlineExceeded\<close>).
\<close>

datatype ctx_err = Canceled | DeadlineExceeded

text \<open>
  The error values of \<open>client.go\<close>: the package-level sentinels, the error of the
  start-once guard of \<open>Run\<close>, the wrapper built by
  \<open>fmt.Errorf("GetInfo error: %v", err)\<close>, the error of a context, and any error a
  collaborator (node backend, store, server, sweeper, executor) hands back.
\<close>

datatype error =
    ErrSwapFeeTooHigh
  | ErrPrepayAmountTooHigh
  | ErrSwapAmountTooLow
  | ErrSwapAmountTooHigh
  | ErrExpiryTooSoon
  | ErrExpiryTooFar
  | ErrStartedOnce
  | ErrGetInfo error
  | ErrContext ctx_err
  | ErrExternal string

section \<open>Data\<close>

text \<open>
  The declarations of the structs are not in \<open>client.go\<close>; each record below has the
  fields that \<open>client.go\<close> reads or writes. \<open>lntypes.Hash\<close> is 32 bytes.
\<close>

type_synonym lntypes_Hash = "256 word"

text \<open>
  Modelled from the spec: the declaration of the swap states and of \<open>Type()\<close> is not
  in \<open>client.go\<close>. Section 3 of the specification lists the sub-states of the two
  categories; \<open>Type()\<close> classifies a state as pending or terminal.
\<close>

datatype SwapState =
    StateInitiated
  | StateHtlcBroadcast
  | StateAwaitingConfirmation
  | StateOffchainSettled
  | StateSuccess
  | StateFailed
  | StateExpired

datatype StateType = StateTypePending | StateTypeTerminal

fun Type :: "SwapState \<Rightarrow> StateType" where
  "Type StateInitiated = StateTypePending"
| "Type StateHtlcBroadcast = StateTypePending"
| "Type StateAwaitingConfirmation = StateTypePending"
| "Type StateOffchainSettled = StateTypePending"
| "Type StateSuccess = StateTypeTerminal"
| "Type StateFailed = StateTypeTerminal"
| "Type StateExpired = StateTypeTerminal"

text \<open>
  A persisted swap record, as far as \<open>client.go\<close> reads it: its identifier and the
  state its \<open>State()\<close> accessor returns.
\<close>

record PersistentUncharge =
  Hash :: lntypes_Hash
  State :: SwapState

text \<open>The in-memory swap object handed to the executor; \<open>Uncharge\<close> returns its
  \<open>hash\<close>.\<close>

record unchargeSwap =
  hash :: lntypes_Hash
  swap_state :: SwapState

text \<open>Amounts are \<open>btcutil.Amount\<close> (an int64); \<open>client.go\<close> only compares them
  and passes them on, so their values are modelled as integers. The fee rate of the
  terms is a rational number, as in the fee quote example of section 8 of the
  specification (a rate of 0.01).\<close>

record UnchargeRequest =
  Amount :: int
  DestAddr :: string
  UnchargeChannel :: "64 word option"

record UnchargeQuoteRequest =
  quote_Amount :: int
  SweepConfTarget :: "32 word"

record UnchargeTerms =
  MinSwapAmount :: int
  MaxSwapAmount :: int
  SwapFeeBase :: int
  SwapFeeRate :: rat
  PrepayAmt :: int

record UnchargeQuote =
  SwapFee :: int
  MinerFee :: int
  PrepayAmount :: int

section \<open>Observable actions\<close>

text \<open>
  The calls that leave \<open>client.go\<close> (to the node backend, the store, the server, the
  sweeper and the executor) and the operations on the channels and the wait group are
  recorded in a trace. The head of the trace is the most recent action. The natural
  numbers identify calls: \<open>i\<close> a call of \<open>Run\<close>, \<open>j\<close> a call of \<open>Uncharge\<close>.
  Of the log lines only the error that \<open>resumeSwaps\<close> logs is recorded.
  \<open>executor.initiateSwap\<close> is not in \<open>client.go\<close>; by section 4.1 of the
  specification it returns without waiting for the swap, and its call is recorded as
  the submission of the swap.
\<close>

datatype obs =
    ObsReady
  | ObsGetInfo nat
  | ObsGetSwaps nat
  | ObsSpawn nat
  | ObsResume PersistentUncharge
  | ObsLogError error
  | ObsInitiateResumed unchargeSwap
  | ObsClose
  | ObsExecutorRun nat
  | ObsExecutorRet nat "error option"
  | ObsMainCancel nat
  | ObsWaitFinished nat
  | ObsWgWait nat
  | ObsNewSwap nat
  | ObsInitiateNew nat unchargeSwap
  | ObsGetTerms
  | ObsGetSweepFee nat "32 word"

section \<open>The client and its concurrent calls\<close>

text \<open>Where a call of \<open>Run\<close> stands. \<open>R_start\<close> is a call that has not executed its
  first statement; \<open>R_done r\<close> is a call that has returned \<open>r\<close> (\<open>None\<close> is nil).\<close>

datatype run_pc =
    R_start
  | R_getinfo
  | R_query
  | R_spawn "PersistentUncharge list"
  | R_exec
  | R_running
  | R_cancel "error option"
  | R_waitfin "error option"
  | R_wgwait "error option"
  | R_done "error option"

text \<open>Where the goroutine started by \<open>Run\<close> stands: not started, in the loop of
  \<open>resumeSwaps\<close> with the records still to visit, after \<open>close(s.resumeReady)\<close> and
  before the deferred \<open>s.wg.Done()\<close>, finished.\<close>

datatype resume_pc =
    G_idle
  | G_loop "PersistentUncharge list"
  | G_closed
  | G_done

text \<open>Where a call of \<open>waitForInitialized\<close> stands: at its first \<open>select\<close> (on
  \<open>s.executor.ready\<close>) or at its second (on \<open>s.resumeReady\<close>).\<close>

datatype wait_pc = W_ready | W_resume

text \<open>Where a call of \<open>Uncharge\<close> stands: inside \<open>waitForInitialized\<close>, before
  \<open>newUnchargeSwap\<close>, before \<open>initiateSwap\<close>, returned. A result \<open>Inl e\<close> is
  \<open>(nil, e)\<close>, a result \<open>Inr h\<close> is \<open>(&h, nil)\<close>.\<close>

datatype uncharge_pc =
    U_wait wait_pc
  | U_new
  | U_submit unchargeSwap
  | U_done "error + lntypes_Hash"

text \<open>
  The client. Of the struct \<open>Client\<close>: the flag \<open>started\<close>, the channels
  \<open>executor.ready\<close> and \<open>resumeReady\<close> (\<open>True\<close> once closed), the counter of
  the wait group \<open>wg\<close> and the records held by \<open>Store\<close>. Of the program around
  it: where each call of \<open>Run\<close>, each goroutine of \<open>Run\<close> (named by the call that
  starts it) and each call of \<open>Uncharge\<close> stands, the request and the context passed
  to each call of \<open>Uncharge\<close> (\<open>None\<close> while the context is not done, then the
  value of \<open>ctx.Err()\<close>), the context passed to each call of \<open>Run\<close>, and the
  trace.

  \<open>Run\<close> never reads its context: it hands it to \<open>GetInfo\<close> and, as the parent of
  \<open>mainCtx\<close>, to \<open>resumeSwaps\<close> and \<open>executor.run\<close>. What these make of a
  context that is done is part of their answers.
\<close>

record Client =
  started :: "32 word"
  executor_ready :: bool
  resumeReady :: bool
  wg :: nat
  Store :: "PersistentUncharge list"
  run_calls :: "nat \<Rightarrow> run_pc"
  resumers :: "nat \<Rightarrow> resume_pc"
  uncharge_calls :: "nat \<Rightarrow> uncharge_pc"
  requests :: "nat \<Rightarrow> UnchargeRequest"
  contexts :: "nat \<Rightarrow> ctx_err option"
  run_contexts :: "nat \<Rightarrow> ctx_err option"
  trace :: "obs list"

text \<open>
  \<open>NewClient\<close>: the flag is zero, both channels are open, nothing has run. The store is
  opened with the records \<open>db\<close> it holds; \<open>reqs j\<close> is the request that the \<open>j\<close>-th
  call of \<open>Uncharge\<close> will pass, and no context is done yet.
\<close>

definition NewClient :: "PersistentUncharge list \<Rightarrow> (nat \<Rightarrow> UnchargeRequest) \<Rightarrow> Client" where
  "NewClient db reqs =
     \<lparr> started = 0, executor_ready = False, resumeReady = False, wg = 0, Store = db,
       run_calls = (\<lambda>_. R_start), resumers = (\<lambda>_. G_idle),
       uncharge_calls = (\<lambda>_. U_wait W_ready), requests = reqs,
       contexts = (\<lambda>_. None), run_contexts = (\<lambda>_. None), trace = [] \<rparr>"

definition emit :: "obs \<Rightarrow> Client \<Rightarrow> Client" where
  "emit a s = s\<lparr>trace := a # trace s\<rparr>"

definition set_run :: "nat \<Rightarrow> run_pc \<Rightarrow> Client \<Rightarrow> Client" where
  "set_run i pc s = s\<lparr>run_calls := (run_calls s)(i := pc)\<rparr>"

definition set_resumer :: "nat \<Rightarrow> resume_pc \<Rightarrow> Client \<Rightarrow> Client" where
  "set_resumer g pc s = s\<lparr>resumers := (resumers s)(g := pc)\<rparr>"

definition set_uncharge :: "nat \<Rightarrow> uncharge_pc \<Rightarrow> Client \<Rightarrow> Client" where
  "set_uncharge j pc s = s\<lparr>uncharge_calls := (uncharge_calls s)(j := pc)\<rparr>"

section \<open>What the environment contributes to a step\<close>

datatype select_case = CaseChan | CaseCtx

text \<open>
  The answers of the collaborators and of the Go scheduler that a step may need: the
  result of \<open>GetInfo\<close>, of \<open>Store.getUnchargeSwaps\<close> (on success the call returns the
  store's records), of \<open>executor.run\<close>, the case a \<open>select\<close> takes among those that
  are ready, and what the call of \<open>newUnchargeSwap\<close> hands back: its result and the
  records the store holds when it returns (the call is given the store).
\<close>

datatype ext =
    NoExt
  | GetInfoRet "error option"
  | GetSwapsRet "error option"
  | ExecutorRet "error option"
  | Pick select_case
  | NewSwapRet "(error + unchargeSwap) \<times> PersistentUncharge list"

section \<open>resumeSwaps\<close>

text \<open>
  \<open>resumeUnchargeSwap\<close> is not in \<open>client.go\<close>; it is a parameter \<open>rs\<close> of the
  model, a function from the record to an error or the swap object.

  \<open>resumeSwaps_body\<close> is one iteration of the loop of \<open>resumeSwaps\<close>, as the list of
  its actions in the order they happen: nothing for a record that is not pending;
  otherwise the call of \<open>resumeUnchargeSwap\<close>, followed by the logged error or by the
  call of \<open>executor.initiateSwap\<close>.
\<close>

type_synonym resume_fn = "PersistentUncharge \<Rightarrow> error + unchargeSwap"

definition resumeSwaps_body :: "resume_fn \<Rightarrow> PersistentUncharge \<Rightarrow> obs list" where
  "resumeSwaps_body rs pend =
     (if Type (State pend) \<noteq> StateTypePending then []
      else (case rs pend of
              Inl e \<Rightarrow> [ObsResume pend, ObsLogError e]
            | Inr swap \<Rightarrow> [ObsResume pend, ObsInitiateResumed swap]))"

fun resumeSwaps :: "resume_fn \<Rightarrow> PersistentUncharge list \<Rightarrow> obs list" where
  "resumeSwaps rs [] = []"
| "resumeSwaps rs (pend # swaps) = resumeSwaps_body rs pend @ resumeSwaps rs swaps"

text \<open>The swaps handed to \<open>executor.initiateSwap\<close> by the resume pass, oldest first.\<close>

fun resumed_swaps :: "obs list \<Rightarrow> unchargeSwap list" where
  "resumed_swaps [] = []"
| "resumed_swaps (ObsInitiateResumed swap # as) = swap # resumed_swaps as"
| "resumed_swaps (_ # as) = resumed_swaps as"

text \<open>The records passed to \<open>resumeUnchargeSwap\<close> by the resume pass, oldest first.\<close>

fun resume_calls :: "obs list \<Rightarrow> PersistentUncharge list" where
  "resume_calls [] = []"
| "resume_calls (ObsResume pend # as) = pend # resume_calls as"
| "resume_calls (_ # as) = resume_calls as"

text \<open>
  One step of the goroutine that \<open>Run\<close> starts: an iteration of the loop of
  \<open>resumeSwaps\<close>, then \<open>close(s.resumeReady)\<close>, then the deferred \<open>s.wg.Done()\<close>.
  Closing a closed channel and a negative counter panic in Go: the step is \<open>None\<close>.
\<close>

definition resume_step :: "resume_fn \<Rightarrow> nat \<Rightarrow> Client \<Rightarrow> Client option" where
  "resume_step rs g s =
     (case resumers s g of
        G_loop (pend # swaps) \<Rightarrow>
          Some (set_resumer g (G_loop swaps)
                 (s\<lparr>trace := rev (resumeSwaps_body rs pend) @ trace s\<rparr>))
      | G_loop [] \<Rightarrow>
          if resumeReady s then None
          else Some (set_resumer g G_closed (emit ObsClose (s\<lparr>resumeReady := True\<rparr>)))
      | G_closed \<Rightarrow>
          if wg s = 0 then None
          else Some (set_resumer g G_done (s\<lparr>wg := wg s - 1\<rparr>))
      | _ \<Rightarrow> None)"

section \<open>Run\<close>

text \<open>
  One statement of the call \<open>i\<close> of \<open>Run\<close>:
  the compare-and-swap on \<open>started\<close>; \<open>GetInfo\<close>; \<open>Store.getUnchargeSwaps\<close>;
  \<open>wg.Add(1)\<close> and the start of the goroutine; the call of \<open>executor.run\<close> and its
  return, where \<open>context.Canceled\<close> becomes nil; \<open>mainCancel()\<close>;
  \<open>executor.waitFinished()\<close>; \<open>wg.Wait()\<close>, which can only proceed when the counter
  is zero; the return. The deferred \<open>mainCancel()\<close> runs on every return after the
  context was derived.
\<close>

definition Run_step :: "ext \<Rightarrow> nat \<Rightarrow> Client \<Rightarrow> Client option" where
  "Run_step x i s =
     (case run_calls s i of
        R_start \<Rightarrow>
          if started s = 0 then Some (set_run i R_getinfo (s\<lparr>started := 1\<rparr>))
          else Some (set_run i (R_done (Some ErrStartedOnce)) s)
      | R_getinfo \<Rightarrow>
          (case x of
             GetInfoRet (Some e) \<Rightarrow>
               Some (set_run i (R_done (Some (ErrGetInfo e))) (emit (ObsGetInfo i) s))
           | GetInfoRet None \<Rightarrow> Some (set_run i R_query (emit (ObsGetInfo i) s))
           | _ \<Rightarrow> None)
      | R_query \<Rightarrow>
          (case x of
             GetSwapsRet (Some e) \<Rightarrow>
               Some (set_run i (R_done (Some e))
                      (emit (ObsMainCancel i) (emit (ObsGetSwaps i) s)))
           | GetSwapsRet None \<Rightarrow>
               Some (set_run i (R_spawn (Store s)) (emit (ObsGetSwaps i) s))
           | _ \<Rightarrow> None)
      | R_spawn pendingSwaps \<Rightarrow>
          Some (set_run i R_exec
                 (set_resumer i (G_loop pendingSwaps)
                   (emit (ObsSpawn i) (s\<lparr>wg := wg s + 1\<rparr>))))
      | R_exec \<Rightarrow> Some (set_run i R_running (emit (ObsExecutorRun i) s))
      | R_running \<Rightarrow>
          (case x of
             ExecutorRet err \<Rightarrow>
               Some (set_run i
                      (R_cancel (if err = Some (ErrContext Canceled) then None else err))
                      (emit (ObsExecutorRet i err) s))
           | _ \<Rightarrow> None)
      | R_cancel err \<Rightarrow> Some (set_run i (R_waitfin err) (emit (ObsMainCancel i) s))
      | R_waitfin err \<Rightarrow> Some (set_run i (R_wgwait err) (emit (ObsWaitFinished i) s))
      | R_wgwait err \<Rightarrow>
          if wg s = 0
          then Some (set_run i (R_done err) (emit (ObsMainCancel i) (emit (ObsWgWait i) s)))
          else None
      | R_done r \<Rightarrow> None)"

section \<open>Uncharge and waitForInitialized\<close>

text \<open>
  A \<open>select\<close> over a channel and \<open>ctx.Done()\<close>: the case \<open>pick\<close> can be taken when
  it is ready; a \<open>select\<close> with no ready case blocks (\<open>None\<close>). When both cases are
  ready Go takes either, so both picks are possible. A \<open>select\<close> is one step, taken
  when the call is scheduled, on the state of the channels at that moment.
\<close>

definition select_chan_or_ctx ::
  "bool \<Rightarrow> ctx_err option \<Rightarrow> select_case \<Rightarrow> (error option) option" where
  "select_chan_or_ctx fired ctx pick =
     (case pick of
        CaseChan \<Rightarrow> if fired then Some None else None
      | CaseCtx \<Rightarrow> (case ctx of None \<Rightarrow> None | Some e \<Rightarrow> Some (Some (ErrContext e))))"

text \<open>
  One \<open>select\<close> of \<open>waitForInitialized\<close>, for a caller whose context is
  \<open>ctx\<close>: \<open>None\<close> when it blocks; otherwise the call moves on to the second
  \<open>select\<close> (\<open>Inl W_resume\<close>) or returns (\<open>Inr\<close>) the error of the context or
  nil.
\<close>

definition waitForInitialized_step ::
  "select_case \<Rightarrow> ctx_err option \<Rightarrow> Client \<Rightarrow> wait_pc \<Rightarrow> (wait_pc + error option) option" where
  "waitForInitialized_step pick ctx s w =
     (case w of
        W_ready \<Rightarrow>
          (case select_chan_or_ctx (executor_ready s) ctx pick of
             None \<Rightarrow> None
           | Some None \<Rightarrow> Some (Inl W_resume)
           | Some (Some err) \<Rightarrow> Some (Inr (Some err)))
      | W_resume \<Rightarrow>
          (case select_chan_or_ctx (resumeReady s) ctx pick of
             None \<Rightarrow> None
           | Some None \<Rightarrow> Some (Inr None)
           | Some (Some err) \<Rightarrow> Some (Inr (Some err))))"

text \<open>
  One statement of the call \<open>j\<close> of \<open>Uncharge\<close>: a \<open>select\<close> of
  \<open>waitForInitialized\<close>, whose error \<open>Uncharge\<close> returns with a nil identifier;
  the call of \<open>newUnchargeSwap\<close> (with the height read from the executor) and the
  return of its error; \<open>executor.initiateSwap\<close> with the return of the hash.
\<close>

definition Uncharge_step :: "ext \<Rightarrow> nat \<Rightarrow> Client \<Rightarrow> Client option" where
  "Uncharge_step x j s =
     (case uncharge_calls s j of
        U_wait w \<Rightarrow>
          (case x of
             Pick c \<Rightarrow>
               (case waitForInitialized_step c (contexts s j) s w of
                  None \<Rightarrow> None
                | Some (Inl w') \<Rightarrow> Some (set_uncharge j (U_wait w') s)
                | Some (Inr None) \<Rightarrow> Some (set_uncharge j U_new s)
                | Some (Inr (Some err)) \<Rightarrow> Some (set_uncharge j (U_done (Inl err)) s))
           | _ \<Rightarrow> None)
      | U_new \<Rightarrow>
          (case x of
             NewSwapRet (Inl err, db) \<Rightarrow>
               Some (set_uncharge j (U_done (Inl err))
                      (emit (ObsNewSwap j) (s\<lparr>Store := db\<rparr>)))
           | NewSwapRet (Inr swap, db) \<Rightarrow>
               Some (set_uncharge j (U_submit swap)
                      (emit (ObsNewSwap j) (s\<lparr>Store := db\<rparr>)))
           | _ \<Rightarrow> None)
      | U_submit swap \<Rightarrow>
          Some (set_uncharge j (U_done (Inr (hash swap))) (emit (ObsInitiateNew j swap) s))
      | U_done r \<Rightarrow> None)"

section \<open>newUnchargeSwap\<close>

text \<open>
  Modelled from the spec: \<open>newUnchargeSwap\<close> is not in \<open>client.go\<close>. By section 4.2
  of the specification it validates the request against the server-advertised minimum
  and maximum amount (and further bounds), fails with a descriptive error without
  mutating the store, and otherwise assigns a fresh identifier; by section 4.3 the
  initial record of the new swap is persisted before \<open>Uncharge\<close> submits it.
  \<open>new_terms\<close> is the server's answer to the terms query, \<open>new_outcome\<close> the
  outcome of the remaining validation and of the negotiation with the server: an error,
  or the identifier of the new swap.
\<close>

record new_env =
  new_terms :: "error + UnchargeTerms"
  new_outcome :: "error + lntypes_Hash"

definition newUnchargeSwap ::
  "new_env \<Rightarrow> int \<Rightarrow> UnchargeRequest \<Rightarrow> PersistentUncharge list \<Rightarrow>
   (error + unchargeSwap) \<times> PersistentUncharge list" where
  "newUnchargeSwap env initiationHeight request db =
     (case new_terms env of
        Inl e \<Rightarrow> (Inl e, db)
      | Inr terms \<Rightarrow>
          if Amount request < MinSwapAmount terms then (Inl ErrSwapAmountTooLow, db)
          else if Amount request > MaxSwapAmount terms then (Inl ErrSwapAmountTooHigh, db)
          else (case new_outcome env of
                  Inl e \<Rightarrow> (Inl e, db)
                | Inr h \<Rightarrow>
                    (Inr \<lparr>hash = h, swap_state = StateInitiated\<rparr>,
                     db @ [\<lparr>Hash = h, State = StateInitiated\<rparr>])))"

section \<open>UnchargeQuote\<close>

text \<open>
  Modelled from the spec: \<open>utils.CalcFee\<close> is not in \<open>client.go\<close>. By section 4.3
  of the specification the swap fee is the base fee plus the rate over the amount, and
  by section 8 a base of 100 and a rate of 0.01 give 600 for the amount 50000. The rate
  is modelled as a rational number; the fee is an amount, so the product is rounded
  down to an integer.
\<close>

definition CalcFee :: "int \<Rightarrow> int \<Rightarrow> rat \<Rightarrow> int" where
  "CalcFee amount feeBase feeRate = feeBase + \<lfloor>feeRate * of_int amount\<rfloor>"

text \<open>
  The collaborators of \<open>UnchargeQuote\<close>: the answer of the server to
  \<open>GetUnchargeTerms\<close>, the constant \<open>utils.QuoteHtlc.MaxSuccessWitnessSize\<close>, and
  the sweeper's \<open>GetSweepFee\<close> as a function of the witness size and the
  confirmation target.
\<close>

record quote_env =
  GetUnchargeTerms :: "error + UnchargeTerms"
  MaxSuccessWitnessSize :: nat
  GetSweepFee :: "nat \<Rightarrow> 32 word \<Rightarrow> error + int"

text \<open>
  \<open>UnchargeQuote\<close>, passing the client: the terms query, the two checks of the
  amount in the order of the source, the swap fee, the miner fee, the quote. The calls
  to the server and to the sweeper are recorded in the trace.
\<close>

definition Client_UnchargeQuote ::
  "quote_env \<Rightarrow> UnchargeQuoteRequest \<Rightarrow> Client \<Rightarrow> (error + UnchargeQuote) \<times> Client" where
  "Client_UnchargeQuote env request s =
     (case GetUnchargeTerms env of
        Inl err \<Rightarrow> (Inl err, emit ObsGetTerms s)
      | Inr terms \<Rightarrow>
          if quote_Amount request < MinSwapAmount terms
          then (Inl ErrSwapAmountTooLow, emit ObsGetTerms s)
          else if quote_Amount request > MaxSwapAmount terms
          then (Inl ErrSwapAmountTooHigh, emit ObsGetTerms s)
          else
            (let swapFee = CalcFee (quote_Amount request) (SwapFeeBase terms) (SwapFeeRate terms);
                 s' = emit (ObsGetSweepFee (MaxSuccessWitnessSize env) (SweepConfTarget request))
                        (emit ObsGetTerms s)
             in case GetSweepFee env (MaxSuccessWitnessSize env) (SweepConfTarget request) of
                  Inl err \<Rightarrow> (Inl err, s')
                | Inr minerFee \<Rightarrow>
                    (Inr \<lparr>SwapFee = swapFee, MinerFee = minerFee,
                          PrepayAmount = PrepayAmt terms\<rparr>, s')))"

section \<open>Interleavings\<close>

text \<open>
  The events of a run of the program: the executor closes its \<open>ready\<close> channel; the
  context of the call \<open>j\<close> of \<open>Uncharge\<close> is cancelled or expires; the context of
  the call \<open>i\<close> of \<open>Run\<close> is cancelled or expires; a call of
  \<open>Run\<close>, the goroutine of a call of \<open>Run\<close>, or a call of \<open>Uncharge\<close> executes its
  next statement. \<open>step\<close> is \<open>None\<close> when the event cannot happen in the state: the
  statement blocks, the call has returned, a channel is closed twice.
\<close>

datatype event =
    ExecutorReady
  | CtxDone nat ctx_err
  | RunCtxDone nat ctx_err
  | StepRun nat ext
  | StepResume nat
  | StepUncharge nat ext

definition step :: "resume_fn \<Rightarrow> event \<Rightarrow> Client \<Rightarrow> Client option" where
  "step rs ev s =
     (case ev of
        ExecutorReady \<Rightarrow>
          if executor_ready s then None
          else Some (emit ObsReady (s\<lparr>executor_ready := True\<rparr>))
      | CtxDone j e \<Rightarrow>
          (case contexts s j of
             None \<Rightarrow> Some (s\<lparr>contexts := (contexts s)(j := Some e)\<rparr>)
           | Some _ \<Rightarrow> None)
      | RunCtxDone i e \<Rightarrow>
          (case run_contexts s i of
             None \<Rightarrow> Some (s\<lparr>run_contexts := (run_contexts s)(i := Some e)\<rparr>)
           | Some _ \<Rightarrow> None)
      | StepRun i x \<Rightarrow> Run_step x i s
      | StepResume g \<Rightarrow> resume_step rs g s
      | StepUncharge j x \<Rightarrow> Uncharge_step x j s)"

fun exec :: "resume_fn \<Rightarrow> event list \<Rightarrow> Client \<Rightarrow> Client option" where
  "exec rs [] s = Some s"
| "exec rs (ev # evs) s = (case step rs ev s of None \<Rightarrow> None | Some s' \<Rightarrow> exec rs evs s')"

section \<open>Properties of traces\<close>

text \<open>The actions of the resume pass.\<close>

fun is_resume_obs :: "obs \<Rightarrow> bool" where
  "is_resume_obs (ObsResume _) = True"
| "is_resume_obs (ObsLogError _) = True"
| "is_resume_obs (ObsInitiateResumed _) = True"
| "is_resume_obs _ = False"

text \<open>
  \<open>gated tr\<close>: in the trace \<open>tr\<close> (most recent action first) every call of
  \<open>newUnchargeSwap\<close> and every submission made by \<open>Uncharge\<close> has the closing of
  \<open>executor.ready\<close> and of \<open>resumeReady\<close> in its past, and no action of the resume
  pass has the closing of \<open>resumeReady\<close> in its past.
\<close>

fun gated :: "obs list \<Rightarrow> bool" where
  "gated [] = True"
| "gated (ObsNewSwap j # past) = (ObsReady \<in> set past \<and> ObsClose \<in> set past \<and> gated past)"
| "gated (ObsInitiateNew j swap # past) =
     (ObsReady \<in> set past \<and> ObsClose \<in> set past \<and> gated past)"
| "gated (ObsResume pend # past) = (ObsClose \<notin> set past \<and> gated past)"
| "gated (ObsLogError e # past) = (ObsClose \<notin> set past \<and> gated past)"
| "gated (ObsInitiateResumed swap # past) = (ObsClose \<notin> set past \<and> gated past)"
| "gated (_ # past) = gated past"

text \<open>The call of \<open>Run\<close> an action belongs to.\<close>

fun run_obs :: "obs \<Rightarrow> nat option" where
  "run_obs (ObsGetInfo i) = Some i"
| "run_obs (ObsGetSwaps i) = Some i"
| "run_obs (ObsSpawn i) = Some i"
| "run_obs (ObsExecutorRun i) = Some i"
| "run_obs (ObsExecutorRet i _) = Some i"
| "run_obs (ObsMainCancel i) = Some i"
| "run_obs (ObsWaitFinished i) = Some i"
| "run_obs (ObsWgWait i) = Some i"
| "run_obs _ = None"


section \<open>Invariants of the reachable states\<close>

text \<open>A call of \<open>Run\<close> that won the compare-and-swap and has not yet started the
  goroutine; one that has started it and has not returned; the value it will return.\<close>

definition pre_spawn :: "run_pc \<Rightarrow> bool" where
  "pre_spawn pc = (pc = R_getinfo \<or> pc = R_query \<or> (\<exists>ps. pc = R_spawn ps))"

definition past_spawn :: "run_pc \<Rightarrow> bool" where
  "past_spawn pc = (pc = R_exec \<or> pc = R_running \<or> (\<exists>e. pc = R_cancel e) \<or>
     (\<exists>e. pc = R_waitfin e) \<or> (\<exists>e. pc = R_wgwait e))"

fun run_result :: "run_pc \<Rightarrow> error option option" where
  "run_result (R_cancel e) = Some e"
| "run_result (R_waitfin e) = Some e"
| "run_result (R_wgwait e) = Some e"
| "run_result (R_done e) = Some e"
| "run_result _ = None"

definition active :: "resume_pc \<Rightarrow> bool" where
  "active pc = ((\<exists>rest. pc = G_loop rest) \<or> pc = G_closed)"

text \<open>The flag is 0 or 1, and while it is 0 no call of \<open>Run\<close> has executed a
  statement and no goroutine exists.\<close>

definition inv_flag :: "Client \<Rightarrow> bool" where
  "inv_flag s = ((started s = 0 \<or> started s = 1) \<and>
     (started s = 0 \<longrightarrow> (\<forall>i. run_calls s i = R_start) \<and> (\<forall>g. resumers s g = G_idle)))"

text \<open>At most one call of \<open>Run\<close> is between the compare-and-swap and the start of the
  goroutine, and then no goroutine exists.\<close>

definition inv_pre :: "Client \<Rightarrow> bool" where
  "inv_pre s = (\<forall>i. pre_spawn (run_calls s i) \<longrightarrow>
     (\<forall>i'. pre_spawn (run_calls s i') \<longrightarrow> i' = i) \<and> (\<forall>g. resumers s g = G_idle))"

text \<open>At most one goroutine was ever started.\<close>

definition inv_one :: "Client \<Rightarrow> bool" where
  "inv_one s = (\<forall>g g'. resumers s g \<noteq> G_idle \<longrightarrow> resumers s g' \<noteq> G_idle \<longrightarrow> g = g')"

text \<open>A goroutine that has passed \<open>close(s.resumeReady)\<close> has closed the channel;
  once the channel is closed, no goroutine is in the loop of \<open>resumeSwaps\<close> and none can
  be started any more.\<close>

definition inv_gate :: "Client \<Rightarrow> bool" where
  "inv_gate s =
     ((\<forall>g. resumers s g = G_closed \<or> resumers s g = G_done \<longrightarrow> resumeReady s) \<and>
      (resumeReady s \<longrightarrow>
         (\<forall>g rest. resumers s g \<noteq> G_loop rest) \<and> (\<forall>i. \<not> pre_spawn (run_calls s i)) \<and>
         started s \<noteq> 0))"

text \<open>The counter of the wait group is 1 while the goroutine has not executed
  \<open>wg.Done()\<close>, and 0 otherwise.\<close>

definition inv_wg :: "Client \<Rightarrow> bool" where
  "inv_wg s = ((\<forall>g. active (resumers s g) \<longrightarrow> wg s = 1) \<and>
               ((\<forall>g. \<not> active (resumers s g)) \<longrightarrow> wg s = 0))"

text \<open>The trace records the closing of the two channels.\<close>

definition inv_obs :: "Client \<Rightarrow> bool" where
  "inv_obs s = (executor_ready s = (ObsReady \<in> set (trace s)) \<and>
                resumeReady s = (ObsClose \<in> set (trace s)))"

text \<open>A call of \<open>Uncharge\<close> at its second wait has seen \<open>executor.ready\<close> closed;
  one past \<open>waitForInitialized\<close> has seen both channels closed; one that has returned
  has seen both closed or has returned the error of its context.\<close>

definition inv_unch :: "Client \<Rightarrow> bool" where
  "inv_unch s =
     ((\<forall>j. uncharge_calls s j = U_wait W_resume \<longrightarrow> executor_ready s) \<and>
      (\<forall>j. uncharge_calls s j = U_new \<or> (\<exists>w. uncharge_calls s j = U_submit w) \<longrightarrow>
         executor_ready s \<and> resumeReady s) \<and>
      (\<forall>j r. uncharge_calls s j = U_done r \<longrightarrow>
         (executor_ready s \<and> resumeReady s) \<or>
         (\<exists>e. contexts s j = Some e \<and> r = Inl (ErrContext e))))"

text \<open>Until both channels are closed the store holds the records \<open>db\<close> it was opened
  with, and these are the records \<open>Run\<close> passes to the goroutine.\<close>

definition inv_store :: "PersistentUncharge list \<Rightarrow> Client \<Rightarrow> bool" where
  "inv_store db s = ((\<not> (executor_ready s \<and> resumeReady s) \<longrightarrow> Store s = db) \<and>
     (\<forall>i ps. run_calls s i = R_spawn ps \<longrightarrow> ps = db))"

text \<open>The actions of the resume pass in the trace, followed by those of the records
  still to visit, are \<open>resumeSwaps rs db\<close>; once \<open>resumeReady\<close> is closed the trace
  holds all of them.\<close>

definition inv_pass :: "resume_fn \<Rightarrow> PersistentUncharge list \<Rightarrow> Client \<Rightarrow> bool" where
  "inv_pass rs db s =
     ((\<forall>g rest. resumers s g = G_loop rest \<longrightarrow>
         filter is_resume_obs (rev (trace s)) @ resumeSwaps rs rest = resumeSwaps rs db) \<and>
      (resumeReady s \<longrightarrow> filter is_resume_obs (rev (trace s)) = resumeSwaps rs db) \<and>
      ((\<forall>g. resumers s g = G_idle) \<longrightarrow> filter is_resume_obs (rev (trace s)) = []))"

text \<open>After \<open>executor.run\<close> returned \<open>x\<close> to the call \<open>i\<close>, the call holds \<open>x\<close>
  as its result, with \<open>context.Canceled\<close> replaced by nil.\<close>

definition inv_ret :: "Client \<Rightarrow> bool" where
  "inv_ret s = (\<forall>i x. ObsExecutorRet i x \<in> set (trace s) \<longrightarrow>
     run_result (run_calls s i) = Some (if x = Some (ErrContext Canceled) then None else x))"

definition inv_spawned :: "Client \<Rightarrow> bool" where
  "inv_spawned s = (\<forall>i. past_spawn (run_calls s i) \<longrightarrow> resumers s i \<noteq> G_idle)"

text \<open>A call of \<open>Run\<close> that returns after \<open>executor.run\<close> has waited for the executor
  and for its goroutine, which is finished.\<close>

definition inv_fin :: "Client \<Rightarrow> bool" where
  "inv_fin s = (\<forall>i e. (run_calls s i = R_wgwait e \<longrightarrow> ObsWaitFinished i \<in> set (trace s)) \<and>
     (run_calls s i = R_done e \<longrightarrow> (\<exists>x. ObsExecutorRet i x \<in> set (trace s)) \<longrightarrow>
        ObsWaitFinished i \<in> set (trace s) \<and> ObsWgWait i \<in> set (trace s) \<and>
        resumers s i = G_done))"

text \<open>A call of \<open>Run\<close> that has not executed the compare-and-swap has no action in the
  trace.\<close>

definition inv_first :: "Client \<Rightarrow> bool" where
  "inv_first s = (\<forall>a i. a \<in> set (trace s) \<longrightarrow> run_obs a = Some i \<longrightarrow> run_calls s i \<noteq> R_start)"

definition Inv :: "resume_fn \<Rightarrow> PersistentUncharge list \<Rightarrow> Client \<Rightarrow> bool" where
  "Inv rs db s = (inv_flag s \<and> inv_pre s \<and> inv_one s \<and> inv_gate s \<and> inv_wg s \<and> inv_obs s \<and>
     inv_unch s \<and> gated (trace s) \<and> inv_store db s \<and> inv_pass rs db s \<and> inv_ret s \<and>
     inv_spawned s \<and> inv_fin s \<and> inv_first s)"


section \<open>Executions in which newUnchargeSwap is as specified\<close>

text \<open>
  In a step the answer of \<open>newUnchargeSwap\<close> is an input. \<open>answer_as_specified\<close>
  says of one event, and \<open>newUnchargeSwap_answers\<close> of every event of a schedule, that
  the answer handed to a call \<open>j\<close> of \<open>Uncharge\<close> is the one that
  \<open>newUnchargeSwap\<close>, as modelled from the specification, computes from the request of
  the call and the store at that moment, for the server and network answers \<open>envs j\<close>
  and the height \<open>heights j\<close>.
\<close>

fun answer_as_specified :: "(nat \<Rightarrow> new_env) \<Rightarrow> (nat \<Rightarrow> int) \<Rightarrow> event \<Rightarrow> Client \<Rightarrow> bool" where
  "answer_as_specified envs heights (StepUncharge j (NewSwapRet answer)) s =
     (answer = newUnchargeSwap (envs j) (heights j) (requests s j) (Store s))"
| "answer_as_specified envs heights _ s = True"

fun newUnchargeSwap_answers ::
  "resume_fn \<Rightarrow> (nat \<Rightarrow> new_env) \<Rightarrow> (nat \<Rightarrow> int) \<Rightarrow> event list \<Rightarrow> Client \<Rightarrow> bool" where
  "newUnchargeSwap_answers rs envs heights [] s = True"
| "newUnchargeSwap_answers rs envs heights (ev # evs) s =
     (answer_as_specified envs heights ev s \<and>
      (case step rs ev s of
         None \<Rightarrow> True
       | Some s' \<Rightarrow> newUnchargeSwap_answers rs envs heights evs s'))"

text \<open>
  The call \<open>j\<close> of \<open>Uncharge\<close> is rejected with \<open>err\<close>: once it has called
  \<open>newUnchargeSwap\<close> it has returned \<open>err\<close> with a nil identifier; if it has
  returned, it has returned \<open>err\<close> or the error of its context, with a nil identifier;
  it is not about to submit a swap and has submitted none.
\<close>

definition rejected_with :: "error \<Rightarrow> nat \<Rightarrow> Client \<Rightarrow> bool" where
  "rejected_with err j s =
     ((ObsNewSwap j \<in> set (trace s) \<longrightarrow> uncharge_calls s j = U_done (Inl err)) \<and>
      (\<forall>r. uncharge_calls s j = U_done r \<longrightarrow>
         r = Inl err \<or> (\<exists>e. contexts s j = Some e \<and> r = Inl (ErrContext e))) \<and>
      (\<forall>swap. uncharge_calls s j \<noteq> U_submit swap) \<and>
      (\<forall>swap. ObsInitiateNew j swap \<notin> set (trace s)))"

section \<open>Example inputs\<close>

text \<open>
  Concrete inputs at which the theorems below are evaluated: a store with a pending, a
  terminal and a second pending record; requests; a \<open>resumeUnchargeSwap\<close> that always
  succeeds and one that fails on the records in state \<open>StateInitiated\<close>; the terms
  of the fee quote example of section 8 of the specification, and terms whose minimum
  lies above their maximum.
\<close>

definition example_db :: "PersistentUncharge list" where
  "example_db =
     [\<lparr>Hash = 1, State = StateInitiated\<rparr>, \<lparr>Hash = 2, State = StateSuccess\<rparr>,
      \<lparr>Hash = 3, State = StateHtlcBroadcast\<rparr>]"

definition example_requests :: "nat \<Rightarrow> UnchargeRequest" where
  "example_requests j = \<lparr>Amount = 50000, DestAddr = ''addr'', UnchargeChannel = None\<rparr>"

definition example_client :: Client where
  "example_client = NewClient example_db example_requests"

definition resume_all :: resume_fn where
  "resume_all pend = Inr \<lparr>hash = Hash pend, swap_state = State pend\<rparr>"

definition resume_corrupt :: resume_fn where
  "resume_corrupt pend =
     (if State pend = StateInitiated then Inl (ErrExternal ''malformed record'')
      else Inr \<lparr>hash = Hash pend, swap_state = State pend\<rparr>)"

text \<open>The first call of \<open>Run\<close> up to and including its call of \<open>executor.run\<close>.\<close>

definition startup :: "event list" where
  "startup =
     [StepRun 0 NoExt, StepRun 0 (GetInfoRet None), StepRun 0 (GetSwapsRet None),
      StepRun 0 NoExt, StepRun 0 NoExt]"

text \<open>A complete run: start, the executor becomes ready, the resume pass over the three
  records, then one \<open>Uncharge\<close> that passes both waits, builds the swap 7 and submits
  it.\<close>

definition passed_both_waits :: "event list" where
  "passed_both_waits =
     startup @
     [ExecutorReady, StepResume 0, StepResume 0, StepResume 0, StepResume 0, StepResume 0,
      StepUncharge 0 (Pick CaseChan), StepUncharge 0 (Pick CaseChan)]"

definition run_with_uncharge :: "event list" where
  "run_with_uncharge =
     passed_both_waits @
     [StepUncharge 0 (NewSwapRet (Inr \<lparr>hash = 7, swap_state = StateInitiated\<rparr>,
                                  example_db @ [\<lparr>Hash = 7, State = StateInitiated\<rparr>])),
      StepUncharge 0 NoExt]"






text \<open>A start that fails: \<open>GetInfo\<close> returns an error and \<open>Run\<close> returns early.\<close>

definition failed_start :: "event list" where
  "failed_start =
     [StepRun 0 NoExt, StepRun 0 (GetInfoRet (Some (ErrExternal ''connection refused'')))]"

text \<open>The executor is ready, the call 0 of \<open>Uncharge\<close> passes its first wait, then
  its context expires while the resume pass has not run.\<close>

definition expired_while_waiting :: "event list" where
  "expired_while_waiting =
     [ExecutorReady, StepUncharge 0 (Pick CaseChan), CtxDone 0 DeadlineExceeded]"

definition example_terms :: UnchargeTerms where
  "example_terms =
     \<lparr>MinSwapAmount = 10000, MaxSwapAmount = 1000000, SwapFeeBase = 100,
      SwapFeeRate = 1 / 100, PrepayAmt = 1000\<rparr>"

definition example_quote_env :: quote_env where
  "example_quote_env =
     \<lparr>GetUnchargeTerms = Inr example_terms, MaxSuccessWitnessSize = 300,
      GetSweepFee = (\<lambda>size target. Inr 250)\<rparr>"

definition example_new_env :: new_env where
  "example_new_env = \<lparr>new_terms = Inr example_terms, new_outcome = Inr 7\<rparr>"

definition quote_request :: "int \<Rightarrow> UnchargeQuoteRequest" where
  "quote_request amount = \<lparr>quote_Amount = amount, SweepConfTarget = 6\<rparr>"

definition uncharge_request :: "int \<Rightarrow> UnchargeRequest" where
  "uncharge_request amount = \<lparr>Amount = amount, DestAddr = ''addr'', UnchargeChannel = None\<rparr>"

text \<open>A client whose callers of \<open>Uncharge\<close> ask for the amount 5000.\<close>

definition low_client :: Client where
  "low_client = NewClient example_db (\<lambda>j. uncharge_request 5000)"

text \<open>A client whose callers of \<open>Uncharge\<close> ask for the amount 2000000.\<close>

definition high_client :: Client where
  "high_client = NewClient example_db (\<lambda>j. uncharge_request 2000000)"

text \<open>A run in which the call 0 of \<open>Uncharge\<close> passes both waits and
  \<open>newUnchargeSwap\<close> fails with \<open>err\<close>, leaving the store as it was.\<close>

definition rejected_uncharge :: "error \<Rightarrow> event list" where
  "rejected_uncharge err =
     passed_both_waits @ [StepUncharge 0 (NewSwapRet (Inl err, example_db))]"

text \<open>The context of the call 0 of \<open>Uncharge\<close> is cancelled before the client is
  started, and the call takes the \<open>ctx.Done()\<close> case of its first wait.\<close>

definition cancelled_uncharge :: "event list" where
  "cancelled_uncharge = [CtxDone 0 Canceled, StepUncharge 0 (Pick CaseCtx)]"

definition inverted_terms :: UnchargeTerms where
  "inverted_terms =
     \<lparr>MinSwapAmount = 100, MaxSwapAmount = 50, SwapFeeBase = 100, SwapFeeRate = 1 / 100,
      PrepayAmt = 1000\<rparr>"

definition inverted_quote_env :: quote_env where
  "inverted_quote_env =
     \<lparr>GetUnchargeTerms = Inr inverted_terms, MaxSuccessWitnessSize = 300,
      GetSweepFee = (\<lambda>size target. Inr 250)\<rparr>"


section \<open>Steps, case by case\<close>

lemma exec_append:
  "exec rs (xs @ ys) s = (case exec rs xs s of None \<Rightarrow> None | Some s' \<Rightarrow> exec rs ys s')"
  by (induction xs arbitrary: s) (auto split: option.splits)

lemmas setters = set_run_def set_resumer_def set_uncharge_def emit_def

lemma Run_stepE:
  assumes "Run_step x i s = Some s'"
  obtains
    (cas_ok) "run_calls s i = R_start" "started s = 0"
      "s' = set_run i R_getinfo (s\<lparr>started := 1\<rparr>)"
  | (cas_fail) "run_calls s i = R_start" "started s \<noteq> 0"
      "s' = set_run i (R_done (Some ErrStartedOnce)) s"
  | (getinfo_err) e where "run_calls s i = R_getinfo" "x = GetInfoRet (Some e)"
      "s' = set_run i (R_done (Some (ErrGetInfo e))) (emit (ObsGetInfo i) s)"
  | (getinfo_ok) "run_calls s i = R_getinfo" "x = GetInfoRet None"
      "s' = set_run i R_query (emit (ObsGetInfo i) s)"
  | (query_err) e where "run_calls s i = R_query" "x = GetSwapsRet (Some e)"
      "s' = set_run i (R_done (Some e)) (emit (ObsMainCancel i) (emit (ObsGetSwaps i) s))"
  | (query_ok) "run_calls s i = R_query" "x = GetSwapsRet None"
      "s' = set_run i (R_spawn (Store s)) (emit (ObsGetSwaps i) s)"
  | (spawn) ps where "run_calls s i = R_spawn ps"
      "s' = set_run i R_exec (set_resumer i (G_loop ps) (emit (ObsSpawn i) (s\<lparr>wg := wg s + 1\<rparr>)))"
  | (call) "run_calls s i = R_exec" "s' = set_run i R_running (emit (ObsExecutorRun i) s)"
  | (ret) err where "run_calls s i = R_running" "x = ExecutorRet err"
      "s' = set_run i (R_cancel (if err = Some (ErrContext Canceled) then None else err))
              (emit (ObsExecutorRet i err) s)"
  | (cancel) err where "run_calls s i = R_cancel err"
      "s' = set_run i (R_waitfin err) (emit (ObsMainCancel i) s)"
  | (waitfin) err where "run_calls s i = R_waitfin err"
      "s' = set_run i (R_wgwait err) (emit (ObsWaitFinished i) s)"
  | (wgwait) err where "run_calls s i = R_wgwait err" "wg s = 0"
      "s' = set_run i (R_done err) (emit (ObsMainCancel i) (emit (ObsWgWait i) s))"
  using assms unfolding Run_step_def
  by (auto split: run_pc.splits ext.splits option.splits if_splits)

lemma resume_stepE:
  assumes "resume_step rs g s = Some s'"
  obtains
    (iter) pend swaps where "resumers s g = G_loop (pend # swaps)"
      "s' = set_resumer g (G_loop swaps) (s\<lparr>trace := rev (resumeSwaps_body rs pend) @ trace s\<rparr>)"
  | (close) "resumers s g = G_loop []" "\<not> resumeReady s"
      "s' = set_resumer g G_closed (emit ObsClose (s\<lparr>resumeReady := True\<rparr>))"
  | (wgdone) "resumers s g = G_closed" "wg s \<noteq> 0"
      "s' = set_resumer g G_done (s\<lparr>wg := wg s - 1\<rparr>)"
  using assms unfolding resume_step_def
  by (auto split: resume_pc.splits list.splits if_splits)

lemma Uncharge_stepE:
  assumes "Uncharge_step x j s = Some s'"
  obtains
    (ready) "uncharge_calls s j = U_wait W_ready" "x = Pick CaseChan" "executor_ready s"
      "s' = set_uncharge j (U_wait W_resume) s"
  | (ready_ctx) e where "uncharge_calls s j = U_wait W_ready" "x = Pick CaseCtx"
      "contexts s j = Some e" "s' = set_uncharge j (U_done (Inl (ErrContext e))) s"
  | (resume) "uncharge_calls s j = U_wait W_resume" "x = Pick CaseChan" "resumeReady s"
      "s' = set_uncharge j U_new s"
  | (resume_ctx) e where "uncharge_calls s j = U_wait W_resume" "x = Pick CaseCtx"
      "contexts s j = Some e" "s' = set_uncharge j (U_done (Inl (ErrContext e))) s"
  | (new_err) err db where "uncharge_calls s j = U_new" "x = NewSwapRet (Inl err, db)"
      "s' = set_uncharge j (U_done (Inl err)) (emit (ObsNewSwap j) (s\<lparr>Store := db\<rparr>))"
  | (new_ok) swap db where "uncharge_calls s j = U_new" "x = NewSwapRet (Inr swap, db)"
      "s' = set_uncharge j (U_submit swap) (emit (ObsNewSwap j) (s\<lparr>Store := db\<rparr>))"
  | (submit) swap where "uncharge_calls s j = U_submit swap"
      "s' = set_uncharge j (U_done (Inr (hash swap))) (emit (ObsInitiateNew j swap) s)"
  using assms unfolding Uncharge_step_def waitForInitialized_step_def select_chan_or_ctx_def
  by (auto split: uncharge_pc.splits wait_pc.splits ext.splits option.splits if_splits
      select_case.splits sum.splits prod.splits)


lemmas inv_defs = inv_flag_def inv_pre_def inv_one_def inv_gate_def inv_wg_def inv_obs_def
  inv_unch_def inv_store_def inv_pass_def inv_ret_def inv_spawned_def inv_fin_def inv_first_def

lemma body_no_gate: "ObsClose \<notin> set (resumeSwaps_body rs pend) \<and> ObsReady \<notin> set (resumeSwaps_body rs pend)"
  by (auto simp: resumeSwaps_body_def split: sum.splits)

lemma body_resume_obs: "filter is_resume_obs (resumeSwaps_body rs pend) = resumeSwaps_body rs pend"
  by (auto simp: resumeSwaps_body_def split: sum.splits)

lemma body_no_ret: "ObsExecutorRet i x \<notin> set (resumeSwaps_body rs pend) \<and>
   ObsWaitFinished i \<notin> set (resumeSwaps_body rs pend) \<and> ObsWgWait i \<notin> set (resumeSwaps_body rs pend)"
  by (auto simp: resumeSwaps_body_def split: sum.splits)

lemma gated_body: "ObsClose \<notin> set tr \<Longrightarrow> gated tr \<Longrightarrow> gated (rev (resumeSwaps_body rs pend) @ tr)"
  by (auto simp: resumeSwaps_body_def split: sum.splits)

subsection \<open>inv_flag\<close>

lemma inv_flag_run: "inv_flag s \<Longrightarrow> Run_step x i s = Some s' \<Longrightarrow> inv_flag s'"
  by (erule Run_stepE) (auto simp: inv_flag_def setters)

lemma inv_flag_resume: "inv_flag s \<Longrightarrow> resume_step rs g s = Some s' \<Longrightarrow> inv_flag s'"
  by (erule resume_stepE) (auto simp: inv_flag_def setters)

lemma inv_flag_uncharge: "inv_flag s \<Longrightarrow> Uncharge_step x j s = Some s' \<Longrightarrow> inv_flag s'"
  by (erule Uncharge_stepE) (auto simp: inv_flag_def setters)

subsection \<open>inv_pre\<close>

lemma inv_pre_run: "inv_flag s \<Longrightarrow> inv_pre s \<Longrightarrow> Run_step x i s = Some s' \<Longrightarrow> inv_pre s'"
  by (erule Run_stepE) (auto simp: inv_flag_def inv_pre_def pre_spawn_def setters)


lemma inv_pre_resume: "inv_pre s \<Longrightarrow> resume_step rs g s = Some s' \<Longrightarrow> inv_pre s'"
  by (erule resume_stepE) (auto simp: inv_pre_def pre_spawn_def setters)

lemma inv_pre_uncharge: "inv_pre s \<Longrightarrow> Uncharge_step x j s = Some s' \<Longrightarrow> inv_pre s'"
  by (erule Uncharge_stepE) (auto simp: inv_pre_def setters)

subsection \<open>inv_one\<close>

lemma inv_one_run: "inv_pre s \<Longrightarrow> inv_one s \<Longrightarrow> Run_step x i s = Some s' \<Longrightarrow> inv_one s'"
  by (erule Run_stepE) (auto simp: inv_pre_def inv_one_def pre_spawn_def setters)

lemma inv_one_resume: "inv_one s \<Longrightarrow> resume_step rs g s = Some s' \<Longrightarrow> inv_one s'"
  by (erule resume_stepE) (auto simp: inv_one_def setters)

lemma inv_one_uncharge: "inv_one s \<Longrightarrow> Uncharge_step x j s = Some s' \<Longrightarrow> inv_one s'"
  by (erule Uncharge_stepE) (auto simp: inv_one_def setters)

subsection \<open>inv_gate\<close>

lemma inv_gate_frame:
  assumes "inv_gate s" "resumeReady s' = resumeReady s" "resumers s' = resumers s"
    "started s' = started s" "\<And>k. pre_spawn (run_calls s' k) \<Longrightarrow> pre_spawn (run_calls s k)"
  shows "inv_gate s'"
  using assms unfolding inv_gate_def by auto

lemma inv_gate_open:
  assumes "\<not> resumeReady s'" "\<And>g. resumers s' g \<noteq> G_closed \<and> resumers s' g \<noteq> G_done"
  shows "inv_gate s'"
  using assms unfolding inv_gate_def by auto

lemma inv_gate_closedD:
  "inv_gate s \<Longrightarrow> \<not> resumeReady s \<Longrightarrow> resumers s g \<noteq> G_closed \<and> resumers s g \<noteq> G_done"
  unfolding inv_gate_def by auto

lemma inv_gate_readyD:
  "inv_gate s \<Longrightarrow> resumeReady s \<Longrightarrow>
   resumers s g \<noteq> G_loop rest \<and> \<not> pre_spawn (run_calls s i) \<and> started s \<noteq> 0"
  unfolding inv_gate_def by auto

lemma inv_gate_run:
  assumes "inv_gate s" "Run_step x i s = Some s'"
  shows "inv_gate s'"
  using assms(2)
proof (cases rule: Run_stepE)
  case cas_ok
  then have nr: "\<not> resumeReady s" using inv_gate_readyD[OF assms(1)] by auto
  show ?thesis
    by (rule inv_gate_open) (use nr inv_gate_closedD[OF assms(1) nr] in \<open>auto simp: cas_ok(3) setters\<close>)
next
  case (spawn ps)
  then have "pre_spawn (run_calls s i)" by (simp add: pre_spawn_def)
  then have nr: "\<not> resumeReady s" using inv_gate_readyD[OF assms(1)] by auto
  show ?thesis
    by (rule inv_gate_open) (use nr inv_gate_closedD[OF assms(1) nr] in \<open>auto simp: spawn(2) setters\<close>)
qed (rule inv_gate_frame[OF assms(1)]; auto simp: setters pre_spawn_def split: if_splits)+

lemma inv_gate_resume:
  assumes "inv_flag s" "inv_pre s" "inv_one s" "inv_gate s" "resume_step rs g s = Some s'"
  shows "inv_gate s'"
proof -
  have one: "\<And>g'. resumers s g \<noteq> G_idle \<Longrightarrow> g' \<noteq> g \<Longrightarrow> resumers s g' = G_idle"
    using assms(3) unfolding inv_one_def by blast
  have nopre: "\<And>k. resumers s g \<noteq> G_idle \<Longrightarrow> \<not> pre_spawn (run_calls s k)"
    using assms(2) unfolding inv_pre_def by blast
  have flag: "resumers s g \<noteq> G_idle \<Longrightarrow> started s \<noteq> 0"
    using assms(1) unfolding inv_flag_def by auto
  from assms(5) show ?thesis
  proof (cases rule: resume_stepE)
    case (iter pend swaps)
    then have nr: "\<not> resumeReady s" using inv_gate_readyD[OF assms(4)] by blast
    show ?thesis
      by (rule inv_gate_open)
         (use nr inv_gate_closedD[OF assms(4) nr] in \<open>auto simp: iter(2) setters\<close>)
  next
    case close
    have ni: "resumers s g \<noteq> G_idle" using close(1) by simp
    show ?thesis
      unfolding inv_gate_def
      using one[OF ni] nopre[OF ni] flag[OF ni]
      by (auto simp: close(3) setters)
  next
    case wgdone
    have rr: "resumeReady s" using assms(4) wgdone(1) unfolding inv_gate_def by blast
    show ?thesis
      unfolding inv_gate_def
      using inv_gate_readyD[OF assms(4) rr]
      by (auto simp: wgdone(3) rr setters)
  qed
qed

lemma inv_gate_uncharge: "inv_gate s \<Longrightarrow> Uncharge_step x j s = Some s' \<Longrightarrow> inv_gate s'"
  by (erule Uncharge_stepE) (auto simp: inv_gate_def setters)

subsection \<open>inv_wg\<close>

lemma inv_wg_run: "inv_pre s \<Longrightarrow> inv_wg s \<Longrightarrow> Run_step x i s = Some s' \<Longrightarrow> inv_wg s'"
  by (erule Run_stepE) (auto simp: inv_pre_def inv_wg_def pre_spawn_def active_def setters)

lemma inv_wg_resume: "inv_one s \<Longrightarrow> inv_wg s \<Longrightarrow> resume_step rs g s = Some s' \<Longrightarrow> inv_wg s'"
  by (erule resume_stepE) (auto simp: inv_one_def inv_wg_def active_def setters)

lemma inv_wg_uncharge: "inv_wg s \<Longrightarrow> Uncharge_step x j s = Some s' \<Longrightarrow> inv_wg s'"
  by (erule Uncharge_stepE) (auto simp: inv_wg_def setters)

subsection \<open>inv_obs\<close>

lemma inv_obs_run: "inv_obs s \<Longrightarrow> Run_step x i s = Some s' \<Longrightarrow> inv_obs s'"
  by (erule Run_stepE) (auto simp: inv_obs_def setters)

lemma inv_obs_resume: "inv_obs s \<Longrightarrow> resume_step rs g s = Some s' \<Longrightarrow> inv_obs s'"
  by (erule resume_stepE) (auto simp: inv_obs_def setters body_no_gate)

lemma inv_obs_uncharge: "inv_obs s \<Longrightarrow> Uncharge_step x j s = Some s' \<Longrightarrow> inv_obs s'"
  by (erule Uncharge_stepE) (auto simp: inv_obs_def setters)

subsection \<open>inv_unch\<close>

lemma inv_unch_run: "inv_unch s \<Longrightarrow> Run_step x i s = Some s' \<Longrightarrow> inv_unch s'"
  by (erule Run_stepE) (auto simp: inv_unch_def setters)

lemma inv_unch_resume: "inv_unch s \<Longrightarrow> resume_step rs g s = Some s' \<Longrightarrow> inv_unch s'"
  by (erule resume_stepE) (auto simp: inv_unch_def setters)

lemma inv_unch_uncharge: "inv_unch s \<Longrightarrow> Uncharge_step x j s = Some s' \<Longrightarrow> inv_unch s'"
  by (erule Uncharge_stepE) (auto simp: inv_unch_def setters)

subsection \<open>gated\<close>

lemma gated_run: "gated (trace s) \<Longrightarrow> Run_step x i s = Some s' \<Longrightarrow> gated (trace s')"
  by (erule Run_stepE) (auto simp: setters)

lemma gated_resume:
  assumes "inv_gate s" "inv_obs s" "gated (trace s)" "resume_step rs g s = Some s'"
  shows "gated (trace s')"
  using assms(4)
proof (cases rule: resume_stepE)
  case (iter pend swaps)
  then have "\<not> resumeReady s" using inv_gate_readyD[OF assms(1)] by blast
  then have "ObsClose \<notin> set (trace s)" using assms(2) by (simp add: inv_obs_def)
  then show ?thesis using assms(3) by (simp add: iter(2) setters gated_body)
qed (use assms(3) in \<open>auto simp: setters\<close>)

lemma gated_uncharge:
  "inv_unch s \<Longrightarrow> inv_obs s \<Longrightarrow> gated (trace s) \<Longrightarrow>
   Uncharge_step x j s = Some s' \<Longrightarrow> gated (trace s')"
  by (erule Uncharge_stepE) (auto simp: inv_unch_def inv_obs_def setters)

subsection \<open>inv_store\<close>

lemma inv_store_run:
  assumes "inv_gate s" "inv_store db s" "Run_step x i s = Some s'"
  shows "inv_store db s'"
  using assms(3)
proof (cases rule: Run_stepE)
  case query_ok
  then have "pre_spawn (run_calls s i)" by (simp add: pre_spawn_def)
  then have nr: "\<not> resumeReady s" using inv_gate_readyD[OF assms(1)] by auto
  then show ?thesis using assms(2) by (auto simp: inv_store_def query_ok(3) setters)
qed (use assms(2) in \<open>auto simp: inv_store_def setters\<close>)

lemma inv_store_resume: "inv_store db s \<Longrightarrow> resume_step rs g s = Some s' \<Longrightarrow> inv_store db s'"
  by (erule resume_stepE) (auto simp: inv_store_def setters)

lemma inv_store_uncharge:
  "inv_unch s \<Longrightarrow> inv_store db s \<Longrightarrow> Uncharge_step x j s = Some s' \<Longrightarrow> inv_store db s'"
  by (erule Uncharge_stepE) (auto simp: inv_unch_def inv_store_def setters)

subsection \<open>inv_pass\<close>

lemma inv_pass_run:
  assumes "inv_pre s" "inv_gate s" "inv_store db s" "inv_pass rs db s" "Run_step x i s = Some s'"
  shows "inv_pass rs db s'"
  using assms(5)
proof (cases rule: Run_stepE)
  case (spawn ps)
  then have pre: "pre_spawn (run_calls s i)" by (simp add: pre_spawn_def)
  then have nr: "\<not> resumeReady s" using inv_gate_readyD[OF assms(2)] by auto
  have idle: "\<And>g. resumers s g = G_idle" using assms(1) pre unfolding inv_pre_def by blast
  have ps: "ps = db" using assms(3) spawn(1) unfolding inv_store_def by blast
  have "filter is_resume_obs (rev (trace s)) = []"
    using assms(4) idle unfolding inv_pass_def by blast
  then show ?thesis using nr idle by (auto simp: inv_pass_def spawn(2) ps setters)
qed (use assms(4) in \<open>auto simp: inv_pass_def setters\<close>)

lemma inv_pass_resume:
  assumes "inv_one s" "inv_gate s" "inv_pass rs db s" "resume_step rs g s = Some s'"
  shows "inv_pass rs db s'"
proof -
  have one: "\<And>g'. resumers s g \<noteq> G_idle \<Longrightarrow> g' \<noteq> g \<Longrightarrow> resumers s g' = G_idle"
    using assms(1) unfolding inv_one_def by blast
  have loop: "\<And>rest. resumers s g = G_loop rest \<Longrightarrow>
      filter is_resume_obs (rev (trace s)) @ resumeSwaps rs rest = resumeSwaps rs db"
    using assms(3) unfolding inv_pass_def by blast
  have rdy: "resumeReady s \<Longrightarrow> filter is_resume_obs (rev (trace s)) = resumeSwaps rs db"
    using assms(3) unfolding inv_pass_def by blast
  have norun: "\<And>rest. resumeReady s \<Longrightarrow> resumers s g \<noteq> G_loop rest"
    using assms(2) unfolding inv_gate_def by blast
  from assms(4) show ?thesis
  proof (cases rule: resume_stepE)
    case (iter pend swaps)
    have "resumers s g \<noteq> G_idle" using iter(1) by simp
    with one have others: "\<And>g'. g' \<noteq> g \<Longrightarrow> resumers s g' = G_idle" by blast
    have nr: "\<not> resumeReady s" using norun iter(1) by blast
    show ?thesis
      using loop[OF iter(1)] others nr
      by (auto simp: inv_pass_def iter(2) setters body_resume_obs)
  next
    case close
    have "resumers s g \<noteq> G_idle" using close(1) by simp
    with one have others: "\<And>g'. g' \<noteq> g \<Longrightarrow> resumers s g' = G_idle" by blast
    show ?thesis
      using loop[OF close(1)] others
      by (auto simp: inv_pass_def close(3) setters)
  next
    case wgdone
    have "resumers s g \<noteq> G_idle" using wgdone(1) by simp
    with one have others: "\<And>g'. g' \<noteq> g \<Longrightarrow> resumers s g' = G_idle" by blast
    show ?thesis
      using rdy others assms(3)
      by (auto simp: inv_pass_def wgdone(3) setters)
  qed
qed

lemma inv_pass_uncharge:
  "inv_pass rs db s \<Longrightarrow> Uncharge_step x j s = Some s' \<Longrightarrow> inv_pass rs db s'"
  by (erule Uncharge_stepE) (auto simp: inv_pass_def setters)

subsection \<open>inv_ret\<close>

lemma inv_retD:
  "inv_ret s \<Longrightarrow> ObsExecutorRet i x \<in> set (trace s) \<Longrightarrow>
   run_result (run_calls s i) = Some (if x = Some (ErrContext Canceled) then None else x)"
  by (simp add: inv_ret_def)

lemma inv_ret_run:
  assumes "inv_ret s" "Run_step x i s = Some s'"
  shows "inv_ret s'"
  using assms(2)
  by (cases rule: Run_stepE)
     (auto simp: inv_ret_def setters dest: inv_retD[OF assms(1)])

lemma inv_ret_resume: "inv_ret s \<Longrightarrow> resume_step rs g s = Some s' \<Longrightarrow> inv_ret s'"
  by (erule resume_stepE) (auto simp: inv_ret_def setters body_no_ret)

lemma inv_ret_uncharge: "inv_ret s \<Longrightarrow> Uncharge_step x j s = Some s' \<Longrightarrow> inv_ret s'"
  by (erule Uncharge_stepE) (auto simp: inv_ret_def setters)

subsection \<open>inv_spawned\<close>

lemma inv_spawned_run: "inv_spawned s \<Longrightarrow> Run_step x i s = Some s' \<Longrightarrow> inv_spawned s'"
  by (erule Run_stepE) (auto simp: inv_spawned_def past_spawn_def setters)

lemma inv_spawned_resume: "inv_spawned s \<Longrightarrow> resume_step rs g s = Some s' \<Longrightarrow> inv_spawned s'"
  by (erule resume_stepE) (auto simp: inv_spawned_def setters)

lemma inv_spawned_uncharge: "inv_spawned s \<Longrightarrow> Uncharge_step x j s = Some s' \<Longrightarrow> inv_spawned s'"
  by (erule Uncharge_stepE) (auto simp: inv_spawned_def setters)

subsection \<open>inv_fin\<close>

lemma inv_fin_run:
  assumes "inv_wg s" "inv_ret s" "inv_spawned s" "inv_fin s" "Run_step x i s = Some s'"
  shows "inv_fin s'"
proof -
  have fin1: "\<And>k e. run_calls s k = R_wgwait e \<Longrightarrow> ObsWaitFinished k \<in> set (trace s)"
    using assms(4) unfolding inv_fin_def by blast
  have fin2: "\<And>k e y. run_calls s k = R_done e \<Longrightarrow> ObsExecutorRet k y \<in> set (trace s) \<Longrightarrow>
      ObsWaitFinished k \<in> set (trace s) \<and> ObsWgWait k \<in> set (trace s) \<and> resumers s k = G_done"
    using assms(4) unfolding inv_fin_def by blast
  have done_if: "\<And>e. run_calls s i = R_wgwait e \<Longrightarrow> wg s = 0 \<Longrightarrow> resumers s i = G_done"
  proof -
    fix e assume a: "run_calls s i = R_wgwait e" "wg s = 0"
    have "resumers s i \<noteq> G_idle"
      using assms(3) a(1) unfolding inv_spawned_def past_spawn_def by blast
    moreover have "\<not> active (resumers s i)"
      using assms(1) a(2) unfolding inv_wg_def by auto
    ultimately show "resumers s i = G_done"
      by (cases "resumers s i") (auto simp: active_def)
  qed
  from assms(5) show ?thesis
    by (cases rule: Run_stepE)
       (auto simp: inv_fin_def setters
             dest: inv_retD[OF assms(2)] fin1 fin2 done_if)
qed

lemma inv_fin_resume:
  assumes "inv_fin s" "resume_step rs g s = Some s'"
  shows "inv_fin s'"
proof -
  have fin1: "\<And>k e. run_calls s k = R_wgwait e \<Longrightarrow> ObsWaitFinished k \<in> set (trace s)"
    using assms(1) unfolding inv_fin_def by blast
  have fin2: "\<And>k e y. run_calls s k = R_done e \<Longrightarrow> ObsExecutorRet k y \<in> set (trace s) \<Longrightarrow>
      ObsWaitFinished k \<in> set (trace s) \<and> ObsWgWait k \<in> set (trace s) \<and> resumers s k = G_done"
    using assms(1) unfolding inv_fin_def by blast
  from assms(2) show ?thesis
    by (cases rule: resume_stepE)
       (auto simp: inv_fin_def setters body_no_ret dest: fin1 fin2)
qed

lemma inv_fin_uncharge: "inv_fin s \<Longrightarrow> Uncharge_step x j s = Some s' \<Longrightarrow> inv_fin s'"
  by (erule Uncharge_stepE) (auto simp: inv_fin_def setters)


subsection \<open>inv_first\<close>

lemma body_no_run: "a \<in> set (resumeSwaps_body rs pend) \<Longrightarrow> run_obs a = None"
  by (auto simp: resumeSwaps_body_def split: sum.splits if_splits)

lemma inv_firstD: "inv_first s \<Longrightarrow> a \<in> set (trace s) \<Longrightarrow> run_obs a = Some i \<Longrightarrow> run_calls s i \<noteq> R_start"
  unfolding inv_first_def by blast

lemma inv_first_run:
  assumes "inv_first s" "Run_step x i s = Some s'"
  shows "inv_first s'"
  using assms(2)
  by (cases rule: Run_stepE)
     (auto simp: inv_first_def setters dest: inv_firstD[OF assms(1)])

lemma inv_first_resume:
  assumes "inv_first s" "resume_step rs g s = Some s'"
  shows "inv_first s'"
  using assms(2)
  by (cases rule: resume_stepE)
     (auto simp: inv_first_def setters dest: inv_firstD[OF assms(1)] body_no_run)

lemma inv_first_uncharge:
  assumes "inv_first s" "Uncharge_step x j s = Some s'"
  shows "inv_first s'"
  using assms(2)
  by (cases rule: Uncharge_stepE)
     (auto simp: inv_first_def setters dest: inv_firstD[OF assms(1)])

subsection \<open>The environment's events\<close>

lemma Inv_ready:
  assumes "Inv rs db s" "\<not> executor_ready s"
  shows "Inv rs db (emit ObsReady (s\<lparr>executor_ready := True\<rparr>))"
proof -
  let ?s = "emit ObsReady (s\<lparr>executor_ready := True\<rparr>)"
  have "inv_flag ?s" using assms(1) by (simp add: Inv_def inv_flag_def setters)
  moreover have "inv_pre ?s" using assms(1) by (simp add: Inv_def inv_pre_def setters)
  moreover have "inv_one ?s" using assms(1) by (simp add: Inv_def inv_one_def setters)
  moreover have "inv_gate ?s" using assms(1) by (simp add: Inv_def inv_gate_def setters)
  moreover have "inv_wg ?s" using assms(1) by (simp add: Inv_def inv_wg_def setters)
  moreover have "inv_obs ?s" using assms(1) by (simp add: Inv_def inv_obs_def setters)
  moreover have "inv_unch ?s" using assms(1) by (auto simp: Inv_def inv_unch_def setters)
  moreover have "gated (trace ?s)" using assms(1) by (simp add: Inv_def setters)
  moreover have "inv_store db ?s" using assms(1) by (simp add: Inv_def inv_store_def setters)
  moreover have "inv_pass rs db ?s" using assms(1) by (simp add: Inv_def inv_pass_def setters)
  moreover have "inv_ret ?s" using assms(1) by (simp add: Inv_def inv_ret_def setters)
  moreover have "inv_spawned ?s" using assms(1) by (simp add: Inv_def inv_spawned_def setters)
  moreover have "inv_fin ?s" using assms(1) by (simp add: Inv_def inv_fin_def setters)
  moreover have "inv_first ?s" using assms(1) by (auto simp: Inv_def inv_first_def setters)
  ultimately show ?thesis by (simp add: Inv_def)
qed

lemma Inv_ctx:
  assumes "Inv rs db s" "contexts s j = None"
  shows "Inv rs db (s\<lparr>contexts := (contexts s)(j := Some e)\<rparr>)"
proof -
  let ?s = "s\<lparr>contexts := (contexts s)(j := Some e)\<rparr>"
  have "inv_flag ?s" using assms(1) by (simp add: Inv_def inv_flag_def)
  moreover have "inv_pre ?s" using assms(1) by (simp add: Inv_def inv_pre_def)
  moreover have "inv_one ?s" using assms(1) by (simp add: Inv_def inv_one_def)
  moreover have "inv_gate ?s" using assms(1) by (simp add: Inv_def inv_gate_def)
  moreover have "inv_wg ?s" using assms(1) by (simp add: Inv_def inv_wg_def)
  moreover have "inv_obs ?s" using assms(1) by (simp add: Inv_def inv_obs_def)
  moreover have "inv_unch ?s"
  proof -
    have u: "inv_unch s" using assms(1) by (simp add: Inv_def)
    have d: "\<And>k r. uncharge_calls s k = U_done r \<Longrightarrow>
        (executor_ready s \<and> resumeReady s) \<or> (\<exists>e. contexts s k = Some e \<and> r = Inl (ErrContext e))"
      using u unfolding inv_unch_def by blast
    have "\<And>k r. uncharge_calls s k = U_done r \<Longrightarrow>
        (executor_ready s \<and> resumeReady s) \<or>
        (\<exists>e'. ((contexts s)(j := Some e)) k = Some e' \<and> r = Inl (ErrContext e'))"
      using d assms(2) by fastforce
    then show ?thesis using u unfolding inv_unch_def by simp
  qed
  moreover have "gated (trace ?s)" using assms(1) by (simp add: Inv_def)
  moreover have "inv_store db ?s" using assms(1) by (simp add: Inv_def inv_store_def)
  moreover have "inv_pass rs db ?s" using assms(1) by (simp add: Inv_def inv_pass_def)
  moreover have "inv_ret ?s" using assms(1) by (simp add: Inv_def inv_ret_def)
  moreover have "inv_spawned ?s" using assms(1) by (simp add: Inv_def inv_spawned_def)
  moreover have "inv_fin ?s" using assms(1) by (simp add: Inv_def inv_fin_def)
  moreover have "inv_first ?s" using assms(1) by (simp add: Inv_def inv_first_def)
  ultimately show ?thesis by (simp add: Inv_def)
qed

lemma Inv_run_ctx:
  assumes "Inv rs db s"
  shows "Inv rs db (s\<lparr>run_contexts := c\<rparr>)"
proof -
  let ?s = "s\<lparr>run_contexts := c\<rparr>"
  have "inv_flag ?s" using assms(1) by (simp add: Inv_def inv_flag_def)
  moreover have "inv_pre ?s" using assms(1) by (simp add: Inv_def inv_pre_def)
  moreover have "inv_one ?s" using assms(1) by (simp add: Inv_def inv_one_def)
  moreover have "inv_gate ?s" using assms(1) by (simp add: Inv_def inv_gate_def)
  moreover have "inv_wg ?s" using assms(1) by (simp add: Inv_def inv_wg_def)
  moreover have "inv_obs ?s" using assms(1) by (simp add: Inv_def inv_obs_def)
  moreover have "inv_unch ?s" using assms(1) by (simp add: Inv_def inv_unch_def)
  moreover have "gated (trace ?s)" using assms(1) by (simp add: Inv_def)
  moreover have "inv_store db ?s" using assms(1) by (simp add: Inv_def inv_store_def)
  moreover have "inv_pass rs db ?s" using assms(1) by (simp add: Inv_def inv_pass_def)
  moreover have "inv_ret ?s" using assms(1) by (simp add: Inv_def inv_ret_def)
  moreover have "inv_spawned ?s" using assms(1) by (simp add: Inv_def inv_spawned_def)
  moreover have "inv_fin ?s" using assms(1) by (simp add: Inv_def inv_fin_def)
  moreover have "inv_first ?s" using assms(1) by (simp add: Inv_def inv_first_def)
  ultimately show ?thesis by (simp add: Inv_def)
qed

lemma Inv_run:
  assumes "Inv rs db s" "Run_step x i s = Some s'"
  shows "Inv rs db s'"
  using assms unfolding Inv_def
  by (auto intro: inv_flag_run inv_pre_run inv_one_run inv_gate_run inv_wg_run inv_obs_run
      inv_unch_run gated_run inv_store_run inv_pass_run inv_ret_run inv_spawned_run inv_fin_run
      inv_first_run)

lemma Inv_resume:
  assumes "Inv rs db s" "resume_step rs g s = Some s'"
  shows "Inv rs db s'"
  using assms unfolding Inv_def
  by (auto intro: inv_flag_resume inv_pre_resume inv_one_resume inv_gate_resume inv_wg_resume
      inv_obs_resume inv_unch_resume gated_resume inv_store_resume inv_pass_resume inv_ret_resume
      inv_spawned_resume inv_fin_resume inv_first_resume)

lemma Inv_uncharge:
  assumes "Inv rs db s" "Uncharge_step x j s = Some s'"
  shows "Inv rs db s'"
  using assms unfolding Inv_def
  by (auto intro: inv_flag_uncharge inv_pre_uncharge inv_one_uncharge inv_gate_uncharge
      inv_wg_uncharge inv_obs_uncharge inv_unch_uncharge gated_uncharge inv_store_uncharge
      inv_pass_uncharge inv_ret_uncharge inv_spawned_uncharge inv_fin_uncharge inv_first_uncharge)

lemma Inv_step:
  assumes "Inv rs db s" "step rs ev s = Some s'"
  shows "Inv rs db s'"
proof (cases ev)
  case ExecutorReady
  then show ?thesis using assms Inv_ready[of rs db s] by (auto simp: step_def split: if_splits)
next
  case (CtxDone j e)
  then show ?thesis using assms Inv_ctx[of rs db s j e] by (auto simp: step_def split: option.splits)
next
  case (RunCtxDone i e)
  then show ?thesis using assms Inv_run_ctx[of rs db s] by (auto simp: step_def split: option.splits)
next
  case (StepRun i x)
  then show ?thesis using assms Inv_run by (simp add: step_def)
next
  case (StepResume g)
  then show ?thesis using assms Inv_resume by (simp add: step_def)
next
  case (StepUncharge j x)
  then show ?thesis using assms Inv_uncharge by (simp add: step_def)
qed

lemma Inv_exec: "Inv rs db s \<Longrightarrow> exec rs evs s = Some s' \<Longrightarrow> Inv rs db s'"
proof (induction evs arbitrary: s)
  case Nil
  then show ?case by simp
next
  case (Cons ev evs)
  then show ?case by (auto split: option.splits dest: Inv_step)
qed

lemma Inv_NewClient: "Inv rs db (NewClient db reqs)"
  by (simp add: Inv_def inv_defs NewClient_def pre_spawn_def past_spawn_def active_def)

lemma Inv_reachable: "exec rs evs (NewClient db reqs) = Some s \<Longrightarrow> Inv rs db s"
  using Inv_exec Inv_NewClient by blast

section \<open>Progress of the goroutine and facts used by several claims\<close>

lemma InvD:
  assumes "Inv rs db s"
  shows "inv_flag s" "inv_pre s" "inv_one s" "inv_gate s" "inv_wg s" "inv_obs s" "inv_unch s"
    "gated (trace s)" "inv_store db s" "inv_pass rs db s" "inv_ret s" "inv_spawned s" "inv_fin s"
    "inv_first s"
  using assms by (simp_all add: Inv_def)

subsection \<open>Progress of the resume goroutine\<close>

lemma resume_loop_runs:
  "resumers s g = G_loop rest \<Longrightarrow>
   exec rs (replicate (length rest) (StepResume g)) s =
     Some (set_resumer g (G_loop []) (s\<lparr>trace := rev (resumeSwaps rs rest) @ trace s\<rparr>))"
proof (induction rest arbitrary: s)
  case Nil
  then show ?case by (simp add: setters fun_upd_idem)
next
  case (Cons pend swaps)
  let ?s1 = "set_resumer g (G_loop swaps) (s\<lparr>trace := rev (resumeSwaps_body rs pend) @ trace s\<rparr>)"
  have st: "step rs (StepResume g) s = Some ?s1"
    using Cons.prems by (simp add: step_def resume_step_def)
  have "resumers ?s1 g = G_loop swaps" by (simp add: setters)
  from Cons.IH[OF this] st show ?case by (simp add: setters)
qed


lemma resume_pass_completes:
  assumes "Inv rs db s" "resumers s g = G_loop rest"
  shows "exec rs (replicate (length rest + 2) (StepResume g)) s =
     Some (set_resumer g G_done
            (s\<lparr>trace := ObsClose # rev (resumeSwaps rs rest) @ trace s, resumeReady := True,
               wg := wg s - 1\<rparr>))"
proof -
  let ?s1 = "set_resumer g (G_loop []) (s\<lparr>trace := rev (resumeSwaps rs rest) @ trace s\<rparr>)"
  let ?s2 = "set_resumer g G_closed (emit ObsClose (?s1\<lparr>resumeReady := True\<rparr>))"
  have e1: "exec rs (replicate (length rest) (StepResume g)) s = Some ?s1"
    by (rule resume_loop_runs[OF assms(2)])
  have nr: "\<not> resumeReady s"
    using inv_gate_readyD[OF InvD(4)[OF assms(1)]] assms(2) by blast
  have "active (resumers s g)" using assms(2) by (simp add: active_def)
  then have w: "wg s = 1" using InvD(5)[OF assms(1)] unfolding inv_wg_def by blast
  have st2: "step rs (StepResume g) ?s1 = Some ?s2"
    using nr by (simp add: step_def resume_step_def setters)
  have st3: "step rs (StepResume g) ?s2 =
      Some (set_resumer g G_done
            (s\<lparr>trace := ObsClose # rev (resumeSwaps rs rest) @ trace s, resumeReady := True,
               wg := wg s - 1\<rparr>))"
    using w by (simp add: step_def resume_step_def setters)
  have "replicate (length rest + 2) (StepResume g) =
      replicate (length rest) (StepResume g) @ replicate 2 (StepResume g)"
    by (rule replicate_add)
  moreover have "replicate 2 (StepResume g) = [StepResume g, StepResume g]"
    by (simp add: numeral_2_eq_2)
  ultimately have "replicate (length rest + 2) (StepResume g) =
      replicate (length rest) (StepResume g) @ [StepResume g, StepResume g]"
    by simp
  then show ?thesis using e1 st2 st3 by (simp add: exec_append)
qed



subsection \<open>Facts used by several claims\<close>

lemma gated_suffix: "gated (xs @ ys) \<Longrightarrow> gated ys"
proof (induction xs)
  case Nil
  then show ?case by simp
next
  case (Cons a xs)
  then show ?case by (cases a) simp_all
qed

lemma gated_after_close:
  "gated (later @ earlier) \<Longrightarrow> ObsClose \<in> set earlier \<Longrightarrow> filter is_resume_obs later = []"
proof (induction later)
  case Nil
  then show ?case by simp
next
  case (Cons a later)
  then show ?case by (cases a) simp_all
qed

lemma gated_newD:
  "gated tr \<Longrightarrow> ObsNewSwap j \<in> set tr \<or> ObsInitiateNew j w \<in> set tr \<Longrightarrow>
   ObsReady \<in> set tr \<and> ObsClose \<in> set tr"
proof (induction tr rule: gated.induct)
  case 1
  then show ?case by simp
qed auto

lemma started_stays:
  assumes "exec rs evs s = Some s'" "started s = 1"
  shows "started s' = 1 \<and>
    (\<forall>i. run_calls s i = R_start \<or> run_calls s i = R_done (Some ErrStartedOnce) \<longrightarrow>
         run_calls s' i = R_start \<or> run_calls s' i = R_done (Some ErrStartedOnce))"
  using assms
proof (induction evs arbitrary: s)
  case Nil
  then show ?case by simp
next
  case (Cons ev evs)
  from Cons.prems(1) obtain s1 where s1: "step rs ev s = Some s1" "exec rs evs s1 = Some s'"
    by (auto split: option.splits)
  have one: "started s1 = 1 \<and>
    (\<forall>i. run_calls s i = R_start \<or> run_calls s i = R_done (Some ErrStartedOnce) \<longrightarrow>
         run_calls s1 i = R_start \<or> run_calls s1 i = R_done (Some ErrStartedOnce))"
  proof (cases ev)
    case ExecutorReady
    then show ?thesis using s1(1) Cons.prems(2) by (auto simp: step_def setters split: if_splits)
  next
    case (CtxDone j e)
    then show ?thesis using s1(1) Cons.prems(2) by (auto simp: step_def split: option.splits)
  next
    case (RunCtxDone k e)
    then show ?thesis using s1(1) Cons.prems(2) by (auto simp: step_def split: option.splits)
  next
    case (StepRun k x)
    then have "Run_step x k s = Some s1" using s1(1) by (simp add: step_def)
    then show ?thesis using Cons.prems(2)
      by (cases rule: Run_stepE) (auto simp: setters)
  next
    case (StepResume g)
    then have "resume_step rs g s = Some s1" using s1(1) by (simp add: step_def)
    then show ?thesis using Cons.prems(2)
      by (cases rule: resume_stepE) (auto simp: setters)
  next
    case (StepUncharge j x)
    then have "Uncharge_step x j s = Some s1" using s1(1) by (simp add: step_def)
    then show ?thesis using Cons.prems(2)
      by (cases rule: Uncharge_stepE) (auto simp: setters)
  qed
  then have "started s1 = 1" by blast
  from Cons.IH[OF s1(2) this] one show ?case by blast
qed

lemma started_of_begun:
  assumes "Inv rs db s" "run_calls s k \<noteq> R_start"
  shows "started s = 1"
  using InvD(1)[OF assms(1)] assms(2) unfolding inv_flag_def by auto


lemma resume_calls_resumeSwaps:
  "resume_calls (resumeSwaps rs swaps) = filter (\<lambda>pend. Type (State pend) = StateTypePending) swaps"
proof (induction swaps)
  case Nil
  then show ?case by simp
next
  case (Cons pend swaps)
  then show ?case by (auto simp: resumeSwaps_body_def split: sum.splits)
qed

lemma body_no_new:
  "ObsNewSwap j \<notin> set (resumeSwaps_body rs pend) \<and>
   ObsInitiateNew j swap \<notin> set (resumeSwaps_body rs pend)"
  by (auto simp: resumeSwaps_body_def split: sum.splits)

lemma rejected_with_step:
  assumes st: "step rs ev s = Some s'"
    and ans: "answer_as_specified envs heights ev s"
    and rej: "\<And>h db. newUnchargeSwap (envs j) h (requests s j) db = (Inl err, db)"
    and P: "rejected_with err j s"
  shows "rejected_with err j s' \<and> requests s' = requests s"
proof (cases ev)
  case ExecutorReady
  then show ?thesis using st P by (auto simp: step_def rejected_with_def setters split: if_splits)
next
  case (CtxDone k e)
  then have s': "contexts s k = None" "s' = s\<lparr>contexts := (contexts s)(k := Some e)\<rparr>"
    using st by (auto simp: step_def split: option.splits)
  show ?thesis using P unfolding rejected_with_def s'(2) using s'(1) by auto
next
  case (RunCtxDone k e)
  then show ?thesis using st P by (auto simp: step_def rejected_with_def split: option.splits)
next
  case (StepRun k x)
  then have "Run_step x k s = Some s'" using st by (simp add: step_def)
  then show ?thesis using P
    by (cases rule: Run_stepE) (auto simp: rejected_with_def setters)
next
  case (StepResume g)
  then have "resume_step rs g s = Some s'" using st by (simp add: step_def)
  then show ?thesis using P body_no_new[of j rs]
    by (cases rule: resume_stepE) (auto simp: rejected_with_def setters)
next
  case (StepUncharge k x)
  then have u: "Uncharge_step x k s = Some s'" using st by (simp add: step_def)
  show ?thesis
  proof (cases "k = j")
    case False
    from u show ?thesis using P False
      by (cases rule: Uncharge_stepE) (auto simp: rejected_with_def setters)
  next
    case True
    from u show ?thesis
    proof (cases rule: Uncharge_stepE)
      case ready
      then show ?thesis using P True by (auto simp: rejected_with_def setters)
    next
      case (ready_ctx e)
      then show ?thesis using P True by (auto simp: rejected_with_def setters)
    next
      case resume
      then show ?thesis using P True by (auto simp: rejected_with_def setters)
    next
      case (resume_ctx e)
      then show ?thesis using P True by (auto simp: rejected_with_def setters)
    next
      case (new_err e db)
      then have "(Inl e, db) = newUnchargeSwap (envs j) (heights j) (requests s j) (Store s)"
        using ans StepUncharge True by simp
      then have "e = err" using rej by simp
      then show ?thesis using new_err P True by (auto simp: rejected_with_def setters)
    next
      case (new_ok swap db)
      then have "(Inr swap, db) = newUnchargeSwap (envs j) (heights j) (requests s j) (Store s)"
        using ans StepUncharge True by simp
      then show ?thesis using rej by simp
    next
      case (submit swap)
      then show ?thesis using P True by (auto simp: rejected_with_def)
    qed
  qed
qed

lemma rejected_with_exec:
  assumes "exec rs evs s = Some s'"
    and "newUnchargeSwap_answers rs envs heights evs s"
    and "\<And>h db. newUnchargeSwap (envs j) h (requests s j) db = (Inl err, db)"
    and "rejected_with err j s"
  shows "rejected_with err j s'"
  using assms
proof (induction evs arbitrary: s)
  case Nil
  then show ?case by simp
next
  case (Cons ev evs)
  from Cons.prems(1) obtain s1 where s1: "step rs ev s = Some s1" "exec rs evs s1 = Some s'"
    by (auto split: option.splits)
  have a: "answer_as_specified envs heights ev s" "newUnchargeSwap_answers rs envs heights evs s1"
    using Cons.prems(2) s1(1) by simp_all
  have one: "rejected_with err j s1 \<and> requests s1 = requests s"
    by (rule rejected_with_step[OF s1(1) a(1) Cons.prems(3) Cons.prems(4)])
  then have rej1: "\<And>h db. newUnchargeSwap (envs j) h (requests s1 j) db = (Inl err, db)"
    using Cons.prems(3) by simp
  from Cons.IH[OF s1(2) a(2) rej1] one show ?case by blast
qed

lemma rejected_with_NewClient: "rejected_with err j (NewClient db reqs)"
  by (simp add: rejected_with_def NewClient_def)

lemma newUnchargeSwap_too_low:
  "new_terms env = Inr terms \<Longrightarrow> Amount request < MinSwapAmount terms \<Longrightarrow>
   newUnchargeSwap env height request db = (Inl ErrSwapAmountTooLow, db)"
  by (simp add: newUnchargeSwap_def)

lemma newUnchargeSwap_too_high:
  "new_terms env = Inr terms \<Longrightarrow> MaxSwapAmount terms < Amount request \<Longrightarrow>
   \<not> Amount request < MinSwapAmount terms \<Longrightarrow>
   newUnchargeSwap env height request db = (Inl ErrSwapAmountTooHigh, db)"
  by (simp add: newUnchargeSwap_def)

lemmas eval_defs = example_client_def NewClient_def example_db_def example_requests_def
  resume_all_def resume_corrupt_def startup_def run_with_uncharge_def passed_both_waits_def
  failed_start_def
  expired_while_waiting_def step_def Run_step_def resume_step_def Uncharge_step_def
  waitForInitialized_step_def
  select_chan_or_ctx_def resumeSwaps_body_def set_run_def set_resumer_def set_uncharge_def
  emit_def

section \<open>The claims\<close>

subsection \<open>C1: a swap is submitted by Uncharge only after the resume pass\<close>

text \<open>
  Claim C1. Every call of \<open>Uncharge\<close> blocks until both gates (executor ready, resume
  complete) have fired before it constructs or submits the new swap, so every swap
  submitted through \<open>Uncharge\<close> is submitted strictly after the resume pass has
  submitted all persisted pending swaps.

  In every state the program can reach from \<open>NewClient\<close>, under any interleaving of
  the calls of \<open>Run\<close>, the goroutine and the calls of \<open>Uncharge\<close>: a call of
  \<open>Uncharge\<close> that is past \<open>waitForInitialized\<close> or has returned a hash has found
  both channels closed; and wherever the trace holds a call of \<open>newUnchargeSwap\<close> or
  a submission made by \<open>Uncharge\<close>, the actions \<open>earlier\<close> that precede it
  contain the closing of \<open>executor.ready\<close> and of \<open>resumeReady\<close>, and the
  actions of the resume pass among them are the actions of the whole pass
  \<open>resumeSwaps rs db\<close> over the records the store was opened with (so none follows).
\<close>

theorem Uncharge_submits_after_resume_pass:
  assumes "exec rs evs (NewClient db reqs) = Some s"
  shows "(\<forall>j. uncharge_calls s j = U_new \<or> (\<exists>w. uncharge_calls s j = U_submit w) \<or>
          (\<exists>h. uncharge_calls s j = U_done (Inr h)) \<longrightarrow>
        executor_ready s \<and> resumeReady s) \<and>
    (\<forall>later a earlier.
        trace s = later @ a # earlier \<and> ((\<exists>j. a = ObsNewSwap j) \<or> (\<exists>j w. a = ObsInitiateNew j w)) \<longrightarrow>
        ObsReady \<in> set earlier \<and> ObsClose \<in> set earlier \<and>
        filter is_resume_obs (rev earlier) = resumeSwaps rs db \<and>
        filter is_resume_obs later = []) \<and>
    gated (trace s)"
proof -
  have inv: "Inv rs db s" using assms by (rule Inv_reachable)
  have a: "gated (trace s)" by (rule InvD(8)[OF inv])
  have b: "\<forall>j. uncharge_calls s j = U_new \<or> (\<exists>w. uncharge_calls s j = U_submit w) \<or>
          (\<exists>h. uncharge_calls s j = U_done (Inr h)) \<longrightarrow>
        executor_ready s \<and> resumeReady s"
    using InvD(7)[OF inv] unfolding inv_unch_def by fastforce
  have whole: "ObsClose \<in> set (trace s) \<Longrightarrow>
        filter is_resume_obs (rev (trace s)) = resumeSwaps rs db"
    using InvD(6)[OF inv] InvD(10)[OF inv] unfolding inv_obs_def inv_pass_def by blast
  have c: "ObsReady \<in> set earlier \<and> ObsClose \<in> set earlier \<and>
        filter is_resume_obs (rev earlier) = resumeSwaps rs db \<and>
        filter is_resume_obs later = []"
    if split: "trace s = later @ a # earlier"
      and new: "(\<exists>j. a = ObsNewSwap j) \<or> (\<exists>j w. a = ObsInitiateNew j w)"
    for later a earlier
  proof -
    have g: "gated (later @ a # earlier)" using a split by simp
    then have "gated (a # earlier)" by (rule gated_suffix)
    then have gates: "ObsReady \<in> set earlier \<and> ObsClose \<in> set earlier"
      using new by auto
    then have "ObsClose \<in> set (a # earlier)" by simp
    from gated_after_close[OF g this] have none: "filter is_resume_obs later = []" .
    have "\<not> is_resume_obs a" using new by auto
    then have "filter is_resume_obs (rev (trace s)) = filter is_resume_obs (rev earlier)"
      using none by (simp add: split rev_filter[symmetric])
    moreover have "ObsClose \<in> set (trace s)" using gates split by simp
    ultimately show ?thesis using whole gates none by simp
  qed
  from a b c show ?thesis by blast
qed

theorem Uncharge_submits_after_resume_pass_witness:
  "exec resume_all run_with_uncharge example_client \<noteq> None \<and>
   uncharge_calls (the (exec resume_all run_with_uncharge example_client)) 0 = U_done (Inr 7) \<and>
   executor_ready (the (exec resume_all run_with_uncharge example_client)) \<and>
   resumeReady (the (exec resume_all run_with_uncharge example_client)) \<and>
   trace (the (exec resume_all run_with_uncharge example_client)) =
     [ObsInitiateNew 0 \<lparr>hash = 7, swap_state = StateInitiated\<rparr>, ObsNewSwap 0, ObsClose,
      ObsInitiateResumed \<lparr>hash = 3, swap_state = StateHtlcBroadcast\<rparr>,
      ObsResume \<lparr>Hash = 3, State = StateHtlcBroadcast\<rparr>,
      ObsInitiateResumed \<lparr>hash = 1, swap_state = StateInitiated\<rparr>,
      ObsResume \<lparr>Hash = 1, State = StateInitiated\<rparr>,
      ObsReady, ObsExecutorRun 0, ObsSpawn 0, ObsGetSwaps 0, ObsGetInfo 0] \<and>
   filter is_resume_obs
     (rev [ObsNewSwap 0, ObsClose,
           ObsInitiateResumed \<lparr>hash = 3, swap_state = StateHtlcBroadcast\<rparr>,
           ObsResume \<lparr>Hash = 3, State = StateHtlcBroadcast\<rparr>,
           ObsInitiateResumed \<lparr>hash = 1, swap_state = StateInitiated\<rparr>,
           ObsResume \<lparr>Hash = 1, State = StateInitiated\<rparr>,
           ObsReady, ObsExecutorRun 0, ObsSpawn 0, ObsGetSwaps 0, ObsGetInfo 0]) =
     resumeSwaps resume_all example_db \<and>
   gated (trace (the (exec resume_all run_with_uncharge example_client)))"
proof -
  let ?earlier = "[ObsNewSwap 0, ObsClose,
           ObsInitiateResumed \<lparr>hash = 3, swap_state = StateHtlcBroadcast\<rparr>,
           ObsResume \<lparr>Hash = 3, State = StateHtlcBroadcast\<rparr>,
           ObsInitiateResumed \<lparr>hash = 1, swap_state = StateInitiated\<rparr>,
           ObsResume \<lparr>Hash = 1, State = StateInitiated\<rparr>,
           ObsReady, ObsExecutorRun 0, ObsSpawn 0, ObsGetSwaps 0, ObsGetInfo 0]"
  have ne: "exec resume_all run_with_uncharge example_client \<noteq> None"
    by (simp add: eval_defs)
  then have ex: "exec resume_all run_with_uncharge (NewClient example_db example_requests) =
      Some (the (exec resume_all run_with_uncharge example_client))"
    by (simp add: example_client_def)
  have tr: "trace (the (exec resume_all run_with_uncharge example_client)) =
      [] @ ObsInitiateNew 0 \<lparr>hash = 7, swap_state = StateInitiated\<rparr> # ?earlier"
    by (simp add: eval_defs)
  have pc: "uncharge_calls (the (exec resume_all run_with_uncharge example_client)) 0 =
      U_done (Inr 7)"
    by (simp add: eval_defs)
  note inst = Uncharge_submits_after_resume_pass[OF ex]
  from inst have gates: "executor_ready (the (exec resume_all run_with_uncharge example_client)) \<and>
      resumeReady (the (exec resume_all run_with_uncharge example_client))"
    using pc by blast
  from inst tr have whole: "filter is_resume_obs (rev ?earlier) = resumeSwaps resume_all example_db"
    by blast
  from inst have g: "gated (trace (the (exec resume_all run_with_uncharge example_client)))"
    by blast
  from ne pc gates tr whole g show ?thesis by (simp only: append_Nil simp_thms)
qed

subsection \<open>C2: what the resume pass submits\<close>

text \<open>
  Claim C2, as amended. For every list of records loaded from the store, the resume pass
  passes to \<open>resumeUnchargeSwap\<close> exactly the records whose state classifies as
  pending, in the order of the list, and submits to the executor exactly the swaps of
  those pending records for which \<open>resumeUnchargeSwap\<close> succeeds. A record whose state
  is terminal is never passed on and never submitted.
\<close>

theorem resumeSwaps_submits_resumable_pending:
  "resumed_swaps (resumeSwaps rs swaps) =
     concat (map (\<lambda>pend. case rs pend of Inl e \<Rightarrow> [] | Inr swap \<Rightarrow> [swap])
       (filter (\<lambda>pend. Type (State pend) = StateTypePending) swaps)) \<and>
   resume_calls (resumeSwaps rs swaps) =
     filter (\<lambda>pend. Type (State pend) = StateTypePending) swaps"
proof (induction swaps)
  case Nil
  then show ?case by simp
next
  case (Cons pend swaps)
  then show ?case by (auto simp: resumeSwaps_body_def split: sum.splits)
qed

theorem resumeSwaps_submits_resumable_pending_witness:
  "resumed_swaps (resumeSwaps resume_corrupt example_db) =
     [\<lparr>hash = 3, swap_state = StateHtlcBroadcast\<rparr>] \<and>
   resume_calls (resumeSwaps resume_corrupt example_db) =
     [\<lparr>Hash = 1, State = StateInitiated\<rparr>, \<lparr>Hash = 3, State = StateHtlcBroadcast\<rparr>]"
  using resumeSwaps_submits_resumable_pending[of resume_corrupt example_db]
  by (simp add: example_db_def resume_corrupt_def)

text \<open>
  The claim as stated (the pass submits exactly the pending records) fails on a pending
  record that \<open>resumeUnchargeSwap\<close> rejects: the error is logged and the loop
  continues, so the record is pending and nothing is submitted.
\<close>

theorem resumeSwaps_pending_not_submitted:
  "Type (State \<lparr>Hash = 1, State = StateInitiated\<rparr>) = StateTypePending \<and>
   resume_calls (resumeSwaps resume_corrupt [\<lparr>Hash = 1, State = StateInitiated\<rparr>]) =
     [\<lparr>Hash = 1, State = StateInitiated\<rparr>] \<and>
   resumed_swaps (resumeSwaps resume_corrupt [\<lparr>Hash = 1, State = StateInitiated\<rparr>]) = []"
  by (simp add: resumeSwaps_body_def resume_corrupt_def)

subsection \<open>C3: a second call of Run fails without side effects\<close>

text \<open>
  Claim C3. Calling \<open>Run\<close> a second time on an instance whose \<open>Run\<close> has already been
  invoked (still running or already returned) fails with an error, and the failing call
  has no side effects: no store query, no resume pass, no executor start.

  In every reachable state in which some call \<open>k\<close> of \<open>Run\<close> has executed its first
  statement, the first statement of another call \<open>i\<close> returns the error of the
  start-once guard; the state changes only in that the call \<open>i\<close> has returned (the
  trace, the store, the goroutines, the wait group, the flag and both channels are as
  before), and the call executes nothing further.
\<close>

theorem Run_second_call_fails:
  assumes "exec rs evs (NewClient db reqs) = Some s"
    and "run_calls s k \<noteq> R_start" and "run_calls s i = R_start"
  shows "step rs (StepRun i x) s = Some (set_run i (R_done (Some ErrStartedOnce)) s) \<and>
    (\<forall>y. step rs (StepRun i y) (set_run i (R_done (Some ErrStartedOnce)) s) = None) \<and>
    trace (set_run i (R_done (Some ErrStartedOnce)) s) = trace s \<and>
    Store (set_run i (R_done (Some ErrStartedOnce)) s) = Store s \<and>
    resumers (set_run i (R_done (Some ErrStartedOnce)) s) = resumers s \<and>
    wg (set_run i (R_done (Some ErrStartedOnce)) s) = wg s \<and>
    started (set_run i (R_done (Some ErrStartedOnce)) s) = started s \<and>
    resumeReady (set_run i (R_done (Some ErrStartedOnce)) s) = resumeReady s \<and>
    executor_ready (set_run i (R_done (Some ErrStartedOnce)) s) = executor_ready s"
proof -
  have inv: "Inv rs db s" using assms(1) by (rule Inv_reachable)
  have "started s = 1" using started_of_begun[OF inv assms(2)] .
  then show ?thesis using assms(3) by (simp add: step_def Run_step_def setters)
qed

theorem Run_second_call_fails_witness:
  "exec resume_all startup example_client \<noteq> None \<and>
   run_calls (the (exec resume_all startup example_client)) 0 = R_running \<and>
   run_calls (the (exec resume_all startup example_client)) 1 = R_start \<and>
   step resume_all (StepRun 1 NoExt) (the (exec resume_all startup example_client)) =
     Some (set_run 1 (R_done (Some ErrStartedOnce)) (the (exec resume_all startup example_client))) \<and>
   trace (set_run 1 (R_done (Some ErrStartedOnce)) (the (exec resume_all startup example_client))) =
     trace (the (exec resume_all startup example_client))"
proof -
  have ne: "exec resume_all startup example_client \<noteq> None"
    by (simp add: eval_defs)
  then have ex: "exec resume_all startup (NewClient example_db example_requests) =
      Some (the (exec resume_all startup example_client))"
    by (simp add: example_client_def)
  have k: "run_calls (the (exec resume_all startup example_client)) 0 = R_running"
    by (simp add: eval_defs)
  then have k': "run_calls (the (exec resume_all startup example_client)) 0 \<noteq> R_start"
    by simp
  have i: "run_calls (the (exec resume_all startup example_client)) 1 = R_start"
    by (simp add: eval_defs)
  from Run_second_call_fails[OF ex k' i, of NoExt] ne k i show ?thesis by blast
qed

subsection \<open>C4: what Run returns after a cancellation\<close>




subsection \<open>C5: amounts outside the server's limits\<close>

text \<open>
  Claim C5, as amended. When the terms query succeeds: for every request whose amount
  is below the server-advertised minimum, \<open>UnchargeQuote\<close> fails with
  \<open>ErrSwapAmountTooLow\<close>; for every request whose amount is above the
  server-advertised maximum and not below the minimum, it fails with
  \<open>ErrSwapAmountTooHigh\<close>; in both cases the store is unchanged.

  \<open>Uncharge\<close> has no check of the amount of its own: the check is in
  \<open>newUnchargeSwap\<close>, which is not in \<open>client.go\<close>, and \<open>Uncharge\<close> calls it
  only after \<open>waitForInitialized\<close> has returned nil. With \<open>newUnchargeSwap\<close> as the
  specification describes it, and a terms query that succeeds: the call of \<open>Uncharge\<close>
  that has passed \<open>waitForInitialized\<close> returns, with a nil identifier,
  \<open>ErrSwapAmountTooLow\<close> for an amount below the minimum and
  \<open>ErrSwapAmountTooHigh\<close> for an amount above the maximum and not below the minimum,
  and the store is unchanged; and in every interleaving from \<open>NewClient\<close> in which
  \<open>newUnchargeSwap\<close> answers as specified, a call of \<open>Uncharge\<close> with such an amount
  never submits a swap to the executor, and when it has returned it has returned a nil
  identifier with that error or, from \<open>waitForInitialized\<close>, with the error of its
  context.
\<close>

theorem amount_outside_limits_rejected:
  "(GetUnchargeTerms env = Inr terms \<and> quote_Amount request < MinSwapAmount terms \<longrightarrow>
       Client_UnchargeQuote env request s = (Inl ErrSwapAmountTooLow, emit ObsGetTerms s)) \<and>
    (GetUnchargeTerms env = Inr terms \<and> MaxSwapAmount terms < quote_Amount request \<and>
     \<not> quote_Amount request < MinSwapAmount terms \<longrightarrow>
       Client_UnchargeQuote env request s = (Inl ErrSwapAmountTooHigh, emit ObsGetTerms s)) \<and>
    Store (emit ObsGetTerms s) = Store s \<and>
    (new_terms nenv = Inr terms \<and> uncharge_calls s j = U_new \<and>
     Amount (requests s j) < MinSwapAmount terms \<longrightarrow>
       Uncharge_step (NewSwapRet (newUnchargeSwap nenv height (requests s j) (Store s))) j s =
         Some (set_uncharge j (U_done (Inl ErrSwapAmountTooLow)) (emit (ObsNewSwap j) s))) \<and>
    (new_terms nenv = Inr terms \<and> uncharge_calls s j = U_new \<and>
     MaxSwapAmount terms < Amount (requests s j) \<and>
     \<not> Amount (requests s j) < MinSwapAmount terms \<longrightarrow>
       Uncharge_step (NewSwapRet (newUnchargeSwap nenv height (requests s j) (Store s))) j s =
         Some (set_uncharge j (U_done (Inl ErrSwapAmountTooHigh)) (emit (ObsNewSwap j) s))) \<and>
    Store (set_uncharge j (U_done (Inl err)) (emit (ObsNewSwap j) s)) = Store s \<and>
    (exec rs evs (NewClient db reqs) = Some t \<and>
     newUnchargeSwap_answers rs envs heights evs (NewClient db reqs) \<and>
     new_terms (envs k) = Inr terms \<and> Amount (reqs k) < MinSwapAmount terms \<longrightarrow>
       rejected_with ErrSwapAmountTooLow k t) \<and>
    (exec rs evs (NewClient db reqs) = Some t \<and>
     newUnchargeSwap_answers rs envs heights evs (NewClient db reqs) \<and>
     new_terms (envs k) = Inr terms \<and> MaxSwapAmount terms < Amount (reqs k) \<and>
     \<not> Amount (reqs k) < MinSwapAmount terms \<longrightarrow>
       rejected_with ErrSwapAmountTooHigh k t)"
proof -
  have q: "(GetUnchargeTerms env = Inr terms \<and> quote_Amount request < MinSwapAmount terms \<longrightarrow>
       Client_UnchargeQuote env request s = (Inl ErrSwapAmountTooLow, emit ObsGetTerms s)) \<and>
    (GetUnchargeTerms env = Inr terms \<and> MaxSwapAmount terms < quote_Amount request \<and>
     \<not> quote_Amount request < MinSwapAmount terms \<longrightarrow>
       Client_UnchargeQuote env request s = (Inl ErrSwapAmountTooHigh, emit ObsGetTerms s))"
    by (simp add: Client_UnchargeQuote_def)
  have u: "\<And>e. uncharge_calls s j = U_new \<Longrightarrow>
      Uncharge_step (NewSwapRet (Inl e, Store s)) j s =
      Some (set_uncharge j (U_done (Inl e)) (emit (ObsNewSwap j) s))"
    by (simp add: Uncharge_step_def)
  have low: "Uncharge_step (NewSwapRet (newUnchargeSwap nenv height (requests s j) (Store s))) j s =
         Some (set_uncharge j (U_done (Inl ErrSwapAmountTooLow)) (emit (ObsNewSwap j) s))"
    if "new_terms nenv = Inr terms" "uncharge_calls s j = U_new"
      "Amount (requests s j) < MinSwapAmount terms"
    using that u by (simp add: newUnchargeSwap_too_low)
  have high: "Uncharge_step (NewSwapRet (newUnchargeSwap nenv height (requests s j) (Store s))) j s =
         Some (set_uncharge j (U_done (Inl ErrSwapAmountTooHigh)) (emit (ObsNewSwap j) s))"
    if "new_terms nenv = Inr terms" "uncharge_calls s j = U_new"
      "MaxSwapAmount terms < Amount (requests s j)"
      "\<not> Amount (requests s j) < MinSwapAmount terms"
    using that u by (simp add: newUnchargeSwap_too_high)
  have st: "Store (emit ObsGetTerms s) = Store s \<and>
      Store (set_uncharge j (U_done (Inl err)) (emit (ObsNewSwap j) s)) = Store s"
    by (simp add: emit_def set_uncharge_def)
  have rq: "requests (NewClient db reqs) k = reqs k" by (simp add: NewClient_def)
  have xlow: "rejected_with ErrSwapAmountTooLow k t"
    if "exec rs evs (NewClient db reqs) = Some t"
      "newUnchargeSwap_answers rs envs heights evs (NewClient db reqs)"
      "new_terms (envs k) = Inr terms" "Amount (reqs k) < MinSwapAmount terms"
  proof (rule rejected_with_exec[OF that(1) that(2) _ rejected_with_NewClient])
    fix h db'
    show "newUnchargeSwap (envs k) h (requests (NewClient db reqs) k) db' =
        (Inl ErrSwapAmountTooLow, db')"
      unfolding rq by (rule newUnchargeSwap_too_low[OF that(3) that(4)])
  qed
  have xhigh: "rejected_with ErrSwapAmountTooHigh k t"
    if "exec rs evs (NewClient db reqs) = Some t"
      "newUnchargeSwap_answers rs envs heights evs (NewClient db reqs)"
      "new_terms (envs k) = Inr terms" "MaxSwapAmount terms < Amount (reqs k)"
      "\<not> Amount (reqs k) < MinSwapAmount terms"
  proof (rule rejected_with_exec[OF that(1) that(2) _ rejected_with_NewClient])
    fix h db'
    show "newUnchargeSwap (envs k) h (requests (NewClient db reqs) k) db' =
        (Inl ErrSwapAmountTooHigh, db')"
      unfolding rq by (rule newUnchargeSwap_too_high[OF that(3) that(4) that(5)])
  qed
  from q low high st xlow xhigh show ?thesis by blast
qed

text \<open>The two examples of section 8 of the specification: with a minimum of 10000 and
  a maximum of 1000000, the amount 5000 is too low and the amount 2000000 is too high,
  for \<open>UnchargeQuote\<close> and for a call of \<open>Uncharge\<close> that has passed both waits in a
  complete run.\<close>

theorem amount_outside_limits_rejected_witness:
  "exec resume_all passed_both_waits low_client \<noteq> None \<and>
   uncharge_calls (the (exec resume_all passed_both_waits low_client)) 0 = U_new \<and>
   Client_UnchargeQuote example_quote_env (quote_request 5000)
       (the (exec resume_all passed_both_waits low_client)) =
     (Inl ErrSwapAmountTooLow, emit ObsGetTerms (the (exec resume_all passed_both_waits low_client))) \<and>
   Client_UnchargeQuote example_quote_env (quote_request 2000000)
       (the (exec resume_all passed_both_waits low_client)) =
     (Inl ErrSwapAmountTooHigh, emit ObsGetTerms (the (exec resume_all passed_both_waits low_client))) \<and>
   Uncharge_step
       (NewSwapRet (newUnchargeSwap example_new_env 0
          (requests (the (exec resume_all passed_both_waits low_client)) 0)
          (Store (the (exec resume_all passed_both_waits low_client))))) 0
       (the (exec resume_all passed_both_waits low_client)) =
     Some (set_uncharge 0 (U_done (Inl ErrSwapAmountTooLow))
            (emit (ObsNewSwap 0) (the (exec resume_all passed_both_waits low_client)))) \<and>
   Store (set_uncharge 0 (U_done (Inl ErrSwapAmountTooLow))
            (emit (ObsNewSwap 0) (the (exec resume_all passed_both_waits low_client)))) =
     example_db \<and>
   exec resume_all passed_both_waits high_client \<noteq> None \<and>
   uncharge_calls (the (exec resume_all passed_both_waits high_client)) 0 = U_new \<and>
   Uncharge_step
       (NewSwapRet (newUnchargeSwap example_new_env 0
          (requests (the (exec resume_all passed_both_waits high_client)) 0)
          (Store (the (exec resume_all passed_both_waits high_client))))) 0
       (the (exec resume_all passed_both_waits high_client)) =
     Some (set_uncharge 0 (U_done (Inl ErrSwapAmountTooHigh))
            (emit (ObsNewSwap 0) (the (exec resume_all passed_both_waits high_client)))) \<and>
   Store (set_uncharge 0 (U_done (Inl ErrSwapAmountTooHigh))
            (emit (ObsNewSwap 0) (the (exec resume_all passed_both_waits high_client)))) =
     example_db \<and>
   exec resume_all (rejected_uncharge ErrSwapAmountTooLow) low_client \<noteq> None \<and>
   newUnchargeSwap_answers resume_all (\<lambda>j. example_new_env) (\<lambda>j. 0)
     (rejected_uncharge ErrSwapAmountTooLow) low_client \<and>
   uncharge_calls (the (exec resume_all (rejected_uncharge ErrSwapAmountTooLow) low_client)) 0 =
     U_done (Inl ErrSwapAmountTooLow) \<and>
   rejected_with ErrSwapAmountTooLow 0
     (the (exec resume_all (rejected_uncharge ErrSwapAmountTooLow) low_client)) \<and>
   exec resume_all (rejected_uncharge ErrSwapAmountTooHigh) high_client \<noteq> None \<and>
   newUnchargeSwap_answers resume_all (\<lambda>j. example_new_env) (\<lambda>j. 0)
     (rejected_uncharge ErrSwapAmountTooHigh) high_client \<and>
   uncharge_calls (the (exec resume_all (rejected_uncharge ErrSwapAmountTooHigh) high_client)) 0 =
     U_done (Inl ErrSwapAmountTooHigh) \<and>
   rejected_with ErrSwapAmountTooHigh 0
     (the (exec resume_all (rejected_uncharge ErrSwapAmountTooHigh) high_client))"
proof -
  let ?s = "the (exec resume_all passed_both_waits low_client)"
  let ?h = "the (exec resume_all passed_both_waits high_client)"
  let ?sl = "the (exec resume_all (rejected_uncharge ErrSwapAmountTooLow) low_client)"
  let ?sh = "the (exec resume_all (rejected_uncharge ErrSwapAmountTooHigh) high_client)"
  note inst = amount_outside_limits_rejected[where env = example_quote_env
      and terms = example_terms and nenv = example_new_env and height = 0 and j = 0
      and rs = resume_all and db = example_db and envs = "\<lambda>j. example_new_env"
      and heights = "\<lambda>j. 0" and k = 0]
  have ne: "exec resume_all passed_both_waits low_client \<noteq> None"
    by (simp add: eval_defs passed_both_waits_def low_client_def)
  have t: "GetUnchargeTerms example_quote_env = Inr example_terms"
    by (simp add: example_quote_env_def)
  have n: "new_terms example_new_env = Inr example_terms"
    by (simp add: example_new_env_def)
  have pc: "uncharge_calls ?s 0 = U_new"
    by (simp add: eval_defs passed_both_waits_def low_client_def)
  have rq: "requests ?s 0 = uncharge_request 5000"
    by (simp add: eval_defs passed_both_waits_def low_client_def)
  have st: "Store ?s = example_db"
    by (simp add: eval_defs passed_both_waits_def low_client_def)
  have a: "Client_UnchargeQuote example_quote_env (quote_request 5000) ?s =
      (Inl ErrSwapAmountTooLow, emit ObsGetTerms ?s)"
    and c: "Uncharge_step (NewSwapRet (newUnchargeSwap example_new_env 0 (requests ?s 0) (Store ?s)))
        0 ?s =
      Some (set_uncharge 0 (U_done (Inl ErrSwapAmountTooLow)) (emit (ObsNewSwap 0) ?s))"
    and d: "Store (set_uncharge 0 (U_done (Inl ErrSwapAmountTooLow)) (emit (ObsNewSwap 0) ?s)) =
      Store ?s"
    using inst[where request = "quote_request 5000" and s = ?s and err = ErrSwapAmountTooLow]
      t n pc
    by (simp_all add: quote_request_def example_terms_def rq uncharge_request_def)
  have b: "Client_UnchargeQuote example_quote_env (quote_request 2000000) ?s =
      (Inl ErrSwapAmountTooHigh, emit ObsGetTerms ?s)"
    using inst[where request = "quote_request 2000000" and s = ?s and err = ErrSwapAmountTooLow] t
    by (simp add: quote_request_def example_terms_def)
  have neh: "exec resume_all passed_both_waits high_client \<noteq> None"
    by (simp add: eval_defs passed_both_waits_def high_client_def)
  have pch: "uncharge_calls ?h 0 = U_new"
    by (simp add: eval_defs passed_both_waits_def high_client_def)
  have rqh: "requests ?h 0 = uncharge_request 2000000"
    by (simp add: eval_defs passed_both_waits_def high_client_def)
  have sth: "Store ?h = example_db"
    by (simp add: eval_defs passed_both_waits_def high_client_def)
  have ch: "Uncharge_step (NewSwapRet (newUnchargeSwap example_new_env 0 (requests ?h 0) (Store ?h)))
        0 ?h =
      Some (set_uncharge 0 (U_done (Inl ErrSwapAmountTooHigh)) (emit (ObsNewSwap 0) ?h))"
    and dh: "Store (set_uncharge 0 (U_done (Inl ErrSwapAmountTooHigh)) (emit (ObsNewSwap 0) ?h)) =
      Store ?h"
    using inst[where request = "quote_request 2000000" and s = ?h and err = ErrSwapAmountTooHigh]
      n pch
    by (simp_all add: example_terms_def rqh uncharge_request_def)
  have nel: "exec resume_all (rejected_uncharge ErrSwapAmountTooLow) low_client \<noteq> None"
    by (simp add: eval_defs passed_both_waits_def low_client_def rejected_uncharge_def)
  then have exl: "exec resume_all (rejected_uncharge ErrSwapAmountTooLow)
      (NewClient example_db (\<lambda>j. uncharge_request 5000)) = Some ?sl"
    by (simp add: low_client_def)
  have al: "newUnchargeSwap_answers resume_all (\<lambda>j. example_new_env) (\<lambda>j. 0)
      (rejected_uncharge ErrSwapAmountTooLow) low_client"
    by (simp add: eval_defs passed_both_waits_def low_client_def rejected_uncharge_def
        newUnchargeSwap_def example_new_env_def example_terms_def uncharge_request_def)
  then have al': "newUnchargeSwap_answers resume_all (\<lambda>j. example_new_env) (\<lambda>j. 0)
      (rejected_uncharge ErrSwapAmountTooLow) (NewClient example_db (\<lambda>j. uncharge_request 5000))"
    by (simp add: low_client_def)
  have rl: "uncharge_calls ?sl 0 = U_done (Inl ErrSwapAmountTooLow)"
    by (simp add: eval_defs passed_both_waits_def low_client_def rejected_uncharge_def)
  have xl: "rejected_with ErrSwapAmountTooLow 0 ?sl"
    using inst[where reqs = "\<lambda>j. uncharge_request 5000" and t = ?sl
        and evs = "rejected_uncharge ErrSwapAmountTooLow"] exl al' n
    by (simp add: example_terms_def uncharge_request_def)
  have neh': "exec resume_all (rejected_uncharge ErrSwapAmountTooHigh) high_client \<noteq> None"
    by (simp add: eval_defs passed_both_waits_def high_client_def rejected_uncharge_def)
  then have exh: "exec resume_all (rejected_uncharge ErrSwapAmountTooHigh)
      (NewClient example_db (\<lambda>j. uncharge_request 2000000)) = Some ?sh"
    by (simp add: high_client_def)
  have ah: "newUnchargeSwap_answers resume_all (\<lambda>j. example_new_env) (\<lambda>j. 0)
      (rejected_uncharge ErrSwapAmountTooHigh) high_client"
    by (simp add: eval_defs passed_both_waits_def high_client_def rejected_uncharge_def
        newUnchargeSwap_def example_new_env_def example_terms_def uncharge_request_def)
  then have ah': "newUnchargeSwap_answers resume_all (\<lambda>j. example_new_env) (\<lambda>j. 0)
      (rejected_uncharge ErrSwapAmountTooHigh) (NewClient example_db (\<lambda>j. uncharge_request 2000000))"
    by (simp add: high_client_def)
  have rh: "uncharge_calls ?sh 0 = U_done (Inl ErrSwapAmountTooHigh)"
    by (simp add: eval_defs passed_both_waits_def high_client_def rejected_uncharge_def)
  have xh: "rejected_with ErrSwapAmountTooHigh 0 ?sh"
    using inst[where reqs = "\<lambda>j. uncharge_request 2000000" and t = ?sh
        and evs = "rejected_uncharge ErrSwapAmountTooHigh"] exh ah' n
    by (simp add: example_terms_def uncharge_request_def)
  from ne pc a b c d st neh pch ch dh sth nel al rl xl neh' ah rh xh
  show ?thesis by (simp only: simp_thms)
qed

text \<open>
  The claim as stated fails in two ways. Every amount above the maximum does not fail
  with the amount-too-high error: when the server advertises a minimum above its
  maximum, the amount 75 is above the maximum 50 and below the minimum 100, the first
  check of \<open>UnchargeQuote\<close> applies, and the error is \<open>ErrSwapAmountTooLow\<close>. And
  every call of \<open>Uncharge\<close> with an amount below the minimum does not fail with the
  amount-too-low error: a call asking for 5000 whose context is cancelled before the
  client has started returns \<open>context.Canceled\<close> from \<open>waitForInitialized\<close>, without
  reaching the check.
\<close>

theorem amount_above_maximum_reported_too_low:
  "GetUnchargeTerms inverted_quote_env = Inr inverted_terms \<and>
   MaxSwapAmount inverted_terms < quote_Amount (quote_request 75) \<and>
   fst (Client_UnchargeQuote inverted_quote_env (quote_request 75) example_client) =
     Inl ErrSwapAmountTooLow \<and>
   fst (Client_UnchargeQuote inverted_quote_env (quote_request 75) example_client) \<noteq>
     Inl ErrSwapAmountTooHigh \<and>
   exec resume_all cancelled_uncharge low_client \<noteq> None \<and>
   Amount (requests (the (exec resume_all cancelled_uncharge low_client)) 0) <
     MinSwapAmount example_terms \<and>
   uncharge_calls (the (exec resume_all cancelled_uncharge low_client)) 0 =
     U_done (Inl (ErrContext Canceled)) \<and>
   uncharge_calls (the (exec resume_all cancelled_uncharge low_client)) 0 \<noteq>
     U_done (Inl ErrSwapAmountTooLow)"
  by (simp add: Client_UnchargeQuote_def inverted_quote_env_def inverted_terms_def
      quote_request_def eval_defs cancelled_uncharge_def low_client_def uncharge_request_def
      example_terms_def)

subsection \<open>C6: the swap fee of a quote\<close>

text \<open>
  Claim C6. The swap fee returned by \<open>UnchargeQuote\<close> is the server's fee base plus
  the fee rate applied to the requested amount; for a fee base of 100 and a fee rate of
  0.01 the amount 50000 yields the swap fee 600.

  Whenever \<open>UnchargeQuote\<close> returns a quote, its swap fee is \<open>CalcFee\<close> of the
  requested amount, the fee base and the fee rate of the terms the server returned, that
  is the base plus the rate times the amount; with base 100, rate 1/100 and amount 50000
  it is 600.
\<close>

theorem UnchargeQuote_swap_fee:
  assumes "GetUnchargeTerms env = Inr terms"
    and "fst (Client_UnchargeQuote env request s) = Inr quote"
  shows "SwapFee quote = CalcFee (quote_Amount request) (SwapFeeBase terms) (SwapFeeRate terms) \<and>
    SwapFee quote = SwapFeeBase terms + \<lfloor>SwapFeeRate terms * of_int (quote_Amount request)\<rfloor> \<and>
    (SwapFeeBase terms = 100 \<and> SwapFeeRate terms = 1 / 100 \<and> quote_Amount request = 50000 \<longrightarrow>
       SwapFee quote = 600)"
proof -
  have fee: "SwapFee quote =
      CalcFee (quote_Amount request) (SwapFeeBase terms) (SwapFeeRate terms)"
    using assms
    by (auto simp: Client_UnchargeQuote_def Let_def split: if_splits sum.splits)
  have example: "CalcFee 50000 100 (1 / 100) = 600"
    by (simp add: CalcFee_def)
  have "SwapFee quote = 600"
    if "SwapFeeBase terms = 100 \<and> SwapFeeRate terms = 1 / 100 \<and> quote_Amount request = 50000"
  proof -
    have "CalcFee (quote_Amount request) (SwapFeeBase terms) (SwapFeeRate terms) =
        CalcFee 50000 100 (1 / 100)"
      using that by (simp only:)
    then show ?thesis using fee example by (simp only:)
  qed
  then show ?thesis using fee by (simp add: CalcFee_def)
qed

theorem UnchargeQuote_swap_fee_witness:
  "fst (Client_UnchargeQuote example_quote_env (quote_request 50000) example_client) =
     Inr \<lparr>SwapFee = 600, MinerFee = 250, PrepayAmount = 1000\<rparr> \<and>
   SwapFee \<lparr>SwapFee = 600, MinerFee = 250, PrepayAmount = 1000\<rparr> = CalcFee 50000 100 (1 / 100)"
proof -
  have t: "GetUnchargeTerms example_quote_env = Inr example_terms"
    by (simp add: example_quote_env_def)
  have q: "fst (Client_UnchargeQuote example_quote_env (quote_request 50000) example_client) =
      Inr \<lparr>SwapFee = 600, MinerFee = 250, PrepayAmount = 1000\<rparr>"
    by (simp add: Client_UnchargeQuote_def example_quote_env_def example_terms_def
        quote_request_def CalcFee_def Let_def)
  from UnchargeQuote_swap_fee[OF t q] q show ?thesis
    by (simp add: example_terms_def quote_request_def)
qed

subsection \<open>C7: UnchargeQuote is read-only\<close>

text \<open>
  Claim C7. \<open>UnchargeQuote\<close> is purely read-only: for every input and every outcome,
  success or error, it performs no persistence; the store's contents are unchanged.

  For every environment, request and client state, the state after \<open>UnchargeQuote\<close>
  has the same store, and differs from the state before only in the trace, which has
  grown by the calls to the server and to the sweeper.
\<close>

theorem UnchargeQuote_read_only:
  "Store (snd (Client_UnchargeQuote env request s)) = Store s \<and>
   (snd (Client_UnchargeQuote env request s))\<lparr>trace := trace s\<rparr> = s \<and>
   (trace (snd (Client_UnchargeQuote env request s)) = ObsGetTerms # trace s \<or>
    trace (snd (Client_UnchargeQuote env request s)) =
      ObsGetSweepFee (MaxSuccessWitnessSize env) (SweepConfTarget request) # ObsGetTerms # trace s)"
  by (simp add: Client_UnchargeQuote_def emit_def Let_def split: sum.splits)

theorem UnchargeQuote_read_only_witness:
  "Store (snd (Client_UnchargeQuote example_quote_env (quote_request 50000) example_client)) =
     example_db \<and>
   Store (snd (Client_UnchargeQuote example_quote_env (quote_request 5000) example_client)) =
     example_db"
  using UnchargeQuote_read_only[of example_quote_env "quote_request 50000" example_client]
    UnchargeQuote_read_only[of example_quote_env "quote_request 5000" example_client]
  by (simp add: example_client_def NewClient_def)

subsection \<open>C8: the context is done before both gates have fired\<close>

text \<open>
  Claim C8, as amended. While the caller's context is done (cancelled or expired) and
  the two gates have not both fired, a call of \<open>Uncharge\<close> has returned the context's
  error with a nil identifier, or it is inside \<open>waitForInitialized\<close>, where its
  \<open>ctx.Done()\<close> case can be taken and returns the context's error with a nil
  identifier, and where every step it can take returns that error or moves from the
  first wait to the second; no swap is constructed, persisted or submitted by the call.

  Stated for every reachable state in which the context of the call \<open>j\<close> is done with
  the error \<open>e\<close> and the two channels are not both closed. The store then still
  holds the records it was opened with.
\<close>

theorem Uncharge_context_done_before_gates:
  assumes "exec rs evs (NewClient db reqs) = Some s"
    and "contexts s j = Some e" and "\<not> (executor_ready s \<and> resumeReady s)"
  shows "(uncharge_calls s j = U_done (Inl (ErrContext e)) \<or>
      (uncharge_calls s j = U_wait W_ready \<or> uncharge_calls s j = U_wait W_resume) \<and>
      step rs (StepUncharge j (Pick CaseCtx)) s =
        Some (set_uncharge j (U_done (Inl (ErrContext e))) s)) \<and>
    (\<forall>x s'. step rs (StepUncharge j x) s = Some s' \<longrightarrow>
       (uncharge_calls s' j = U_done (Inl (ErrContext e)) \<or>
        uncharge_calls s' j = U_wait W_resume) \<and>
       trace s' = trace s \<and> Store s' = Store s) \<and>
    ObsNewSwap j \<notin> set (trace s) \<and> (\<forall>w. ObsInitiateNew j w \<notin> set (trace s)) \<and>
    Store s = db"
proof -
  have inv: "Inv rs db s" using assms(1) by (rule Inv_reachable)
  have gates: "\<not> (ObsReady \<in> set (trace s) \<and> ObsClose \<in> set (trace s))"
    using InvD(6)[OF inv] assms(3) unfolding inv_obs_def by blast
  have no_new: "ObsNewSwap j \<notin> set (trace s)"
    using gated_newD[OF InvD(8)[OF inv], of j] gates by blast
  have no_sub: "\<forall>w. ObsInitiateNew j w \<notin> set (trace s)"
    using gated_newD[OF InvD(8)[OF inv], of j] gates by blast
  have st: "Store s = db" using InvD(9)[OF inv] assms(3) unfolding inv_store_def by blast
  have not_new: "uncharge_calls s j \<noteq> U_new" "\<And>w. uncharge_calls s j \<noteq> U_submit w"
    using InvD(7)[OF inv] assms(3) unfolding inv_unch_def by blast+
  have second: "uncharge_calls s j = U_wait W_resume \<Longrightarrow> \<not> resumeReady s"
    using InvD(7)[OF inv] assms(3) unfolding inv_unch_def by blast
  have pc: "uncharge_calls s j = U_done (Inl (ErrContext e)) \<or>
      uncharge_calls s j = U_wait W_ready \<or> uncharge_calls s j = U_wait W_resume"
  proof (cases "uncharge_calls s j")
    case U_new
    then show ?thesis using not_new by blast
  next
    case (U_submit w)
    then show ?thesis using not_new by blast
  next
    case (U_done r)
    then have "\<exists>e'. contexts s j = Some e' \<and> r = Inl (ErrContext e')"
      using InvD(7)[OF inv] assms(3) unfolding inv_unch_def by blast
    then show ?thesis using U_done assms(2) by auto
  next
    case (U_wait w)
    then show ?thesis by (cases w) auto
  qed
  have go: "uncharge_calls s j = U_wait W_ready \<or> uncharge_calls s j = U_wait W_resume \<Longrightarrow>
      step rs (StepUncharge j (Pick CaseCtx)) s =
        Some (set_uncharge j (U_done (Inl (ErrContext e))) s)"
    using assms(2)
    by (auto simp: step_def Uncharge_step_def waitForInitialized_step_def
        select_chan_or_ctx_def)
  have only: "(uncharge_calls s' j = U_done (Inl (ErrContext e)) \<or>
        uncharge_calls s' j = U_wait W_resume) \<and>
       trace s' = trace s \<and> Store s' = Store s"
    if "step rs (StepUncharge j x) s = Some s'" for x s'
  proof -
    from that have "Uncharge_step x j s = Some s'" by (simp add: step_def)
    then show ?thesis
      using assms(2) not_new second
      by (cases rule: Uncharge_stepE) (auto simp: setters)
  qed
  from pc go only no_new no_sub st show ?thesis by blast
qed

theorem Uncharge_context_done_before_gates_witness:
  "exec resume_all expired_while_waiting example_client \<noteq> None \<and>
   contexts (the (exec resume_all expired_while_waiting example_client)) 0 =
     Some DeadlineExceeded \<and>
   executor_ready (the (exec resume_all expired_while_waiting example_client)) \<and>
   \<not> resumeReady (the (exec resume_all expired_while_waiting example_client)) \<and>
   uncharge_calls (the (exec resume_all expired_while_waiting example_client)) 0 =
     U_wait W_resume \<and>
   step resume_all (StepUncharge 0 (Pick CaseCtx))
       (the (exec resume_all expired_while_waiting example_client)) =
     Some (set_uncharge 0 (U_done (Inl (ErrContext DeadlineExceeded)))
            (the (exec resume_all expired_while_waiting example_client))) \<and>
   step resume_all (StepUncharge 0 (Pick CaseChan))
       (the (exec resume_all expired_while_waiting example_client)) = None \<and>
   ObsNewSwap 0 \<notin> set (trace (the (exec resume_all expired_while_waiting example_client))) \<and>
   Store (the (exec resume_all expired_while_waiting example_client)) = example_db"
proof -
  have ne: "exec resume_all expired_while_waiting example_client \<noteq> None"
    by (simp add: eval_defs)
  then have ex: "exec resume_all expired_while_waiting (NewClient example_db example_requests) =
      Some (the (exec resume_all expired_while_waiting example_client))"
    by (simp add: example_client_def)
  have c: "contexts (the (exec resume_all expired_while_waiting example_client)) 0 =
      Some DeadlineExceeded"
    by (simp add: eval_defs)
  have r: "executor_ready (the (exec resume_all expired_while_waiting example_client))"
    by (simp add: eval_defs)
  have g: "\<not> resumeReady (the (exec resume_all expired_while_waiting example_client))"
    by (simp add: eval_defs)
  then have g': "\<not> (executor_ready (the (exec resume_all expired_while_waiting example_client)) \<and>
      resumeReady (the (exec resume_all expired_while_waiting example_client)))"
    by simp
  have pc: "uncharge_calls (the (exec resume_all expired_while_waiting example_client)) 0 =
      U_wait W_resume"
    by (simp add: eval_defs)
  have blocked: "step resume_all (StepUncharge 0 (Pick CaseChan))
       (the (exec resume_all expired_while_waiting example_client)) = None"
    by (simp add: eval_defs)
  from Uncharge_context_done_before_gates[OF ex c g'] ne c r g pc blocked show ?thesis by auto
qed

text \<open>
  The claim as stated fails when both gates fire after the context is done and before
  the call evaluates its waits: each \<open>select\<close> then has both cases ready and may take
  the channel. Here the context of the call 0 is cancelled while no gate has fired; the
  client starts, the executor becomes ready and the resume pass completes; the two
  waits of the call take their channel cases, \<open>waitForInitialized\<close> returns nil, and
  \<open>Uncharge\<close> goes on to \<open>newUnchargeSwap\<close> and submits the swap it returns.
\<close>

theorem Uncharge_passes_with_context_done:
  "contexts (the (exec resume_all [CtxDone 0 Canceled] example_client)) 0 = Some Canceled \<and>
   \<not> executor_ready (the (exec resume_all [CtxDone 0 Canceled] example_client)) \<and>
   \<not> resumeReady (the (exec resume_all [CtxDone 0 Canceled] example_client)) \<and>
   exec resume_all (CtxDone 0 Canceled # passed_both_waits) example_client \<noteq> None \<and>
   contexts (the (exec resume_all (CtxDone 0 Canceled # passed_both_waits) example_client)) 0 =
     Some Canceled \<and>
   uncharge_calls (the (exec resume_all (CtxDone 0 Canceled # passed_both_waits) example_client)) 0 =
     U_new \<and>
   uncharge_calls (the (exec resume_all (CtxDone 0 Canceled # run_with_uncharge) example_client)) 0 =
     U_done (Inr 7) \<and>
   ObsInitiateNew 0 \<lparr>hash = 7, swap_state = StateInitiated\<rparr> \<in>
     set (trace (the (exec resume_all (CtxDone 0 Canceled # run_with_uncharge) example_client))) \<and>
   Store (the (exec resume_all (CtxDone 0 Canceled # run_with_uncharge) example_client)) =
     example_db @ [\<lparr>Hash = 7, State = StateInitiated\<rparr>]"
  by (simp add: eval_defs)

subsection \<open>C9: a failed resume does not abort the pass\<close>

text \<open>
  Claim C9. When \<open>resumeUnchargeSwap\<close> fails on one persisted record, the resume pass
  is not aborted: every remaining pending record is still processed, and the
  resume-complete gate is closed after the pass, however many resumes failed.

  In every reachable state in which the goroutine is in the loop of \<open>resumeSwaps\<close> with
  the records \<open>rest\<close> still to visit, and for every \<open>resumeUnchargeSwap\<close>: the
  goroutine can take all its remaining steps; they add to the trace the actions
  \<open>resumeSwaps rs rest\<close> and then the closing of \<open>resumeReady\<close>, which is closed
  afterwards; and \<open>resumeUnchargeSwap\<close> is called on every pending record of
  \<open>rest\<close>, whatever it returned for the others.
\<close>

theorem resume_failure_does_not_abort_pass:
  assumes "exec rs evs (NewClient db reqs) = Some s" and "resumers s g = G_loop rest"
  shows "exec rs (replicate (length rest + 2) (StepResume g)) s =
      Some (set_resumer g G_done
             (s\<lparr>trace := ObsClose # rev (resumeSwaps rs rest) @ trace s, resumeReady := True,
                wg := wg s - 1\<rparr>)) \<and>
    resume_calls (resumeSwaps rs rest) =
      filter (\<lambda>pend. Type (State pend) = StateTypePending) rest"
  using resume_pass_completes[OF Inv_reachable[OF assms(1)] assms(2)] resume_calls_resumeSwaps
  by simp

theorem resume_failure_does_not_abort_pass_witness:
  "exec resume_corrupt [StepRun 0 NoExt, StepRun 0 (GetInfoRet None),
       StepRun 0 (GetSwapsRet None), StepRun 0 NoExt] example_client \<noteq> None \<and>
   resumers (the (exec resume_corrupt [StepRun 0 NoExt, StepRun 0 (GetInfoRet None),
       StepRun 0 (GetSwapsRet None), StepRun 0 NoExt] example_client)) 0 = G_loop example_db \<and>
   map_option resumeReady
     (exec resume_corrupt (replicate (length example_db + 2) (StepResume 0))
       (the (exec resume_corrupt [StepRun 0 NoExt, StepRun 0 (GetInfoRet None),
          StepRun 0 (GetSwapsRet None), StepRun 0 NoExt] example_client))) = Some True \<and>
   map_option trace
     (exec resume_corrupt (replicate (length example_db + 2) (StepResume 0))
       (the (exec resume_corrupt [StepRun 0 NoExt, StepRun 0 (GetInfoRet None),
          StepRun 0 (GetSwapsRet None), StepRun 0 NoExt] example_client))) =
     Some [ObsClose,
           ObsInitiateResumed \<lparr>hash = 3, swap_state = StateHtlcBroadcast\<rparr>,
           ObsResume \<lparr>Hash = 3, State = StateHtlcBroadcast\<rparr>,
           ObsLogError (ErrExternal ''malformed record''),
           ObsResume \<lparr>Hash = 1, State = StateInitiated\<rparr>,
           ObsSpawn 0, ObsGetSwaps 0, ObsGetInfo 0]"
proof -
  let ?evs = "[StepRun 0 NoExt, StepRun 0 (GetInfoRet None), StepRun 0 (GetSwapsRet None),
    StepRun 0 NoExt]"
  have ne: "exec resume_corrupt ?evs example_client \<noteq> None"
    by (simp add: eval_defs)
  then have ex: "exec resume_corrupt ?evs (NewClient example_db example_requests) =
      Some (the (exec resume_corrupt ?evs example_client))"
    by (simp add: example_client_def)
  have g: "resumers (the (exec resume_corrupt ?evs example_client)) 0 = G_loop example_db"
    by (simp add: eval_defs)
  have tr: "trace (the (exec resume_corrupt ?evs example_client)) =
      [ObsSpawn 0, ObsGetSwaps 0, ObsGetInfo 0]"
    by (simp add: eval_defs)
  have rs: "resumeSwaps resume_corrupt example_db =
      [ObsResume \<lparr>Hash = 1, State = StateInitiated\<rparr>,
       ObsLogError (ErrExternal ''malformed record''),
       ObsResume \<lparr>Hash = 3, State = StateHtlcBroadcast\<rparr>,
       ObsInitiateResumed \<lparr>hash = 3, swap_state = StateHtlcBroadcast\<rparr>]"
    by (simp add: example_db_def resume_corrupt_def resumeSwaps_body_def)
  from resume_failure_does_not_abort_pass[OF ex g] ne g tr rs show ?thesis
    by (simp add: setters)
qed

subsection \<open>C10: the started flag is set first and never reset\<close>

text \<open>
  Claim C10. The started flag is set before any other action of \<open>Run\<close> and is never
  reset: once a call of \<open>Run\<close> has begun, even one that returns early with a
  connectivity or store error, every later call of \<open>Run\<close> on the same client fails;
  the client cannot be restarted after a failed start.

  In every reachable state \<open>s\<close> in which some call \<open>k\<close> of \<open>Run\<close> has executed its
  first statement (wherever that call stands now, also when it has returned an error),
  and in every state \<open>s'\<close> reached from \<open>s\<close>: the flag is 1 in \<open>s\<close> and in
  \<open>s'\<close>; a call of \<open>Run\<close> that had not begun in \<open>s\<close> has in \<open>s'\<close> either still
  not begun or returned the error of the start-once guard; and every action of a call of
  \<open>Run\<close> in the trace belongs to a call that has executed the compare-and-swap.
\<close>

theorem started_is_never_reset:
  assumes "exec rs evs (NewClient db reqs) = Some s"
    and "run_calls s k \<noteq> R_start" and "exec rs evs' s = Some s'"
  shows "started s = 1 \<and> started s' = 1 \<and>
    (\<forall>i. run_calls s i = R_start \<longrightarrow>
        run_calls s' i = R_start \<or> run_calls s' i = R_done (Some ErrStartedOnce)) \<and>
    (\<forall>a i. a \<in> set (trace s) \<longrightarrow> run_obs a = Some i \<longrightarrow> run_calls s i \<noteq> R_start)"
proof -
  have inv: "Inv rs db s" using assms(1) by (rule Inv_reachable)
  have st: "started s = 1" using started_of_begun[OF inv assms(2)] .
  show ?thesis
    using st started_stays[OF assms(3) st] InvD(14)[OF inv] unfolding inv_first_def by blast
qed

theorem started_is_never_reset_witness:
  "exec resume_all failed_start example_client \<noteq> None \<and>
   run_calls (the (exec resume_all failed_start example_client)) 0 =
     R_done (Some (ErrGetInfo (ErrExternal ''connection refused''))) \<and>
   started (the (exec resume_all failed_start example_client)) = 1 \<and>
   trace (the (exec resume_all failed_start example_client)) = [ObsGetInfo 0] \<and>
   exec resume_all [StepRun 1 NoExt] (the (exec resume_all failed_start example_client)) \<noteq> None \<and>
   started (the (exec resume_all [StepRun 1 NoExt]
       (the (exec resume_all failed_start example_client)))) = 1 \<and>
   run_calls (the (exec resume_all [StepRun 1 NoExt]
       (the (exec resume_all failed_start example_client)))) 1 = R_done (Some ErrStartedOnce)"
proof -
  have ne: "exec resume_all failed_start example_client \<noteq> None"
    by (simp add: eval_defs)
  then have ex: "exec resume_all failed_start (NewClient example_db example_requests) =
      Some (the (exec resume_all failed_start example_client))"
    by (simp add: example_client_def)
  have k: "run_calls (the (exec resume_all failed_start example_client)) 0 =
      R_done (Some (ErrGetInfo (ErrExternal ''connection refused'')))"
    by (simp add: eval_defs)
  then have k': "run_calls (the (exec resume_all failed_start example_client)) 0 \<noteq> R_start"
    by simp
  have ne': "exec resume_all [StepRun 1 NoExt]
      (the (exec resume_all failed_start example_client)) \<noteq> None"
    by (simp add: eval_defs)
  then have ex': "exec resume_all [StepRun 1 NoExt]
      (the (exec resume_all failed_start example_client)) =
      Some (the (exec resume_all [StepRun 1 NoExt]
        (the (exec resume_all failed_start example_client))))"
    by simp
  have pc: "run_calls (the (exec resume_all [StepRun 1 NoExt]
       (the (exec resume_all failed_start example_client)))) 1 = R_done (Some ErrStartedOnce)"
    by (simp add: eval_defs)
  have tr: "trace (the (exec resume_all failed_start example_client)) = [ObsGetInfo 0]"
    by (simp add: eval_defs)
  from started_is_never_reset[OF ex k' ex'] ne k ne' pc tr show ?thesis by blast
qed

end
